theory Spec2Isabelle
  imports Complex_Main
begin

section \<open>Data model\<close>

text \<open>
  Python floats are modelled as real numbers, Python integers that count observations as
  natural numbers, and categorical values as elements of a linearly ordered type (pandas
  sorts the labels of a cross tabulation). An exception is the left summand of a result;
  \<open>NonFinite\<close> stands for the float result \<open>nan\<close> or infinite of a percentile or a node
  size, which no real number models.
\<close>

datatype error = ValueError | IndexError | KeyError | NonFinite

text \<open>
  A pandas DataFrame as far as the scripts use it: the row labels, the column labels and
  the rows of cells.
\<close>

record ('r, 'c, 'v) frame =
  index :: "'r list"
  columns :: "'c list"
  cells :: "'v list list"

definition shape :: "('r, 'c, 'v) frame \<Rightarrow> nat \<times> nat" where
  "shape t = (length (index t), length (columns t))"

text \<open>\<open>df.sum(axis=1)\<close>: one sum for each row.\<close>

definition row_sums :: "('r, 'c, 'v::monoid_add) frame \<Rightarrow> 'v list" where
  "row_sums t = map sum_list (cells t)"

text \<open>\<open>df.sum()\<close>: one sum for each column.\<close>

definition col_sums :: "('r, 'c, 'v::monoid_add) frame \<Rightarrow> 'v list" where
  "col_sums t = map (\<lambda>j. sum_list (map (\<lambda>row. row ! j) (cells t))) [0..<length (columns t)]"

text \<open>\<open>df.sum().sum()\<close>.\<close>

definition grand_total :: "('r, 'c, 'v::monoid_add) frame \<Rightarrow> 'v" where
  "grand_total t = sum_list (col_sums t)"

text \<open>
  \<open>pd.crosstab(x, y)\<close>: the observations are the pairs at equal positions; the row labels
  are the sorted distinct values of \<open>x\<close> that occur, the column labels those of \<open>y\<close>, and
  a cell counts the observations carrying its two labels.
\<close>

definition crosstab :: "'a::linorder list \<Rightarrow> 'b::linorder list \<Rightarrow> ('a, 'b, nat) frame" where
  "crosstab x y =
     (let ps = zip x y;
          rs = sort (remdups (map fst ps));
          cs = sort (remdups (map snd ps))
      in \<lparr>index = rs, columns = cs,
          cells = map (\<lambda>r. map (\<lambda>c. count_list ps (r, c)) cs) rs\<rparr>)"

section \<open>The chi-squared statistic of the library\<close>

text \<open>
  \<open>scipy.stats.chi2_contingency\<close> is a library function that every statistic of the
  scripts calls with its default arguments (\<open>correction=True\<close>, \<open>lambda_=None\<close>). The
  model follows the library's documented behaviour for a table of two dimensions and
  keeps the first component of its result, the statistic: an empty table
  and a table with a zero expected frequency are rejected with \<open>ValueError\<close>; the
  expected frequency of a cell is the product of its row and column sums over the total;
  with no degree of freedom the statistic is 0; with one degree of freedom each observed
  count is first moved towards its expected value by at most one half (the continuity
  correction); the statistic is the sum of \<open>(observed - expected)\<^sup>2 / expected\<close> over all
  cells.
\<close>

definition expected_freq :: "('r, 'c, nat) frame \<Rightarrow> real list list" where
  "expected_freq t =
     (let n = real (grand_total t)
      in map (\<lambda>r. map (\<lambda>c. real r * real c / n) (col_sums t)) (row_sums t))"

definition yates :: "real \<Rightarrow> real \<Rightarrow> real" where
  "yates obs ex = (let diff = ex - obs in obs + min (1 / 2) \<bar>diff\<bar> * sgn diff)"

definition power_divergence :: "real list list \<Rightarrow> real list list \<Rightarrow> real" where
  "power_divergence f_obs f_exp =
     sum_list (map (\<lambda>(orow, erow). sum_list (map (\<lambda>(ob, ex). (ob - ex)\<^sup>2 / ex) (zip orow erow)))
       (zip f_obs f_exp))"

definition chi2_contingency :: "('r, 'c, nat) frame \<Rightarrow> error + real" where
  "chi2_contingency t =
     (let observed = map (map real) (cells t);
          r = fst (shape t);
          c = snd (shape t)
      in if r * c = 0 then Inl ValueError
         else let expected = expected_freq t
           in if list_ex (list_ex (\<lambda>e. e = 0)) expected then Inl ValueError
              else let dof = int (r * c) - int (r + c) + 2 - 1
                in if dof = 0 then Inr 0
                   else Inr (power_divergence
                     (if dof = 1 then map2 (map2 yates) observed expected else observed)
                     expected))"

section \<open>Association statistics\<close>

text \<open>\<open>cramers_v\<close> of generate_cachai_effect_sizes.py and generate_improved_visualizations.py.\<close>

definition cramers_v :: "'a::linorder list \<Rightarrow> 'b::linorder list \<Rightarrow> error + real" where
  "cramers_v x y =
     (let confusion_matrix = crosstab x y
      in case chi2_contingency confusion_matrix of
           Inl e \<Rightarrow> Inl e
         | Inr chi2 \<Rightarrow>
             let n = grand_total confusion_matrix;
                 min_dim = int (min (fst (shape confusion_matrix)) (snd (shape confusion_matrix))) - 1
             in if min_dim = 0 then Inr 0
                else Inr (sqrt (chi2 / (real n * real_of_int min_dim))))"

text \<open>\<open>phi_coefficient\<close> of generate_cachai_effect_sizes.py and generate_comprehensive_visualizations.py.\<close>

definition phi_coefficient :: "'a::linorder list \<Rightarrow> 'b::linorder list \<Rightarrow> error + real" where
  "phi_coefficient x y =
     (let confusion_matrix = crosstab x y
      in case chi2_contingency confusion_matrix of
           Inl e \<Rightarrow> Inl e
         | Inr chi2 \<Rightarrow>
             let n = grand_total confusion_matrix
             in Inr (sqrt (chi2 / real n)))"

section \<open>Bootstrap confidence interval\<close>

text \<open>
  The global generator of \<open>numpy.random\<close> belongs to the library. Its state is modelled
  as a stream of raw variates and the number of variates consumed; \<open>np.random.seed\<close>
  installs the stream that the seed determines (a parameter of the model) and
  \<open>np.random.choice(a, size, replace=True)\<close> turns the next \<open>size\<close> variates into
  indices below \<open>a\<close>, here by reduction modulo \<open>a\<close>. Every sequence of index vectors
  within range arises from some stream, so a statement about all streams covers every
  behaviour of the generator.
\<close>

record rng =
  raw :: "nat \<Rightarrow> nat"
  pos :: nat

definition np_random_seed :: "(nat \<Rightarrow> nat) \<Rightarrow> rng \<Rightarrow> rng" where
  "np_random_seed stream g = \<lparr>raw = stream, pos = 0\<rparr>"

definition np_random_choice :: "nat \<Rightarrow> nat \<Rightarrow> rng \<Rightarrow> error + (nat list \<times> rng)" where
  "np_random_choice a sz g =
     (if a = 0 \<and> sz \<noteq> 0 then Inl ValueError
      else Inr (map (\<lambda>k. raw g (pos g + k) mod a) [0..<sz], g\<lparr>pos := pos g + sz\<rparr>))"

text \<open>\<open>series.iloc[indices].values\<close>: positional selection, out of range raises.\<close>

definition iloc :: "'a list \<Rightarrow> nat list \<Rightarrow> error + 'a list" where
  "iloc xs indices =
     (if list_all (\<lambda>i. i < length xs) indices then Inr (map (\<lambda>i. xs ! i) indices)
      else Inl IndexError)"

text \<open>
  \<open>np.percentile(a, q)\<close> with the default linear interpolation: the position
  \<open>(n - 1) * q / 100\<close> in the sorted values, interpolated between its two neighbours;
  \<open>q\<close> outside \<open>[0, 100]\<close> raises, an empty array gives \<open>nan\<close>.
\<close>

definition percentile :: "real list \<Rightarrow> real \<Rightarrow> error + real" where
  "percentile a q =
     (if q < 0 \<or> 100 < q then Inl ValueError
      else if a = [] then Inl NonFinite
      else let arr = sort a;
               n = length arr;
               virtual_index = (real n - 1) * (q / 100);
               previous = nat \<lfloor>virtual_index\<rfloor>
           in if real n - 1 \<le> virtual_index then Inr (arr ! (n - 1))
              else Inr (arr ! previous
                        + (arr ! (previous + 1) - arr ! previous) * (virtual_index - real previous)))"

text \<open>
  The resampling loop of \<open>cramers_v_with_ci\<close>; the first argument counts the iterations
  that remain, \<open>v_bootstrap\<close> is the list built so far.
\<close>

primrec bootstrap_loop ::
  "nat \<Rightarrow> 'a::linorder list \<Rightarrow> 'b::linorder list \<Rightarrow> int \<Rightarrow> real list \<Rightarrow> rng
     \<Rightarrow> error + (real list \<times> rng)" where
  "bootstrap_loop 0 x y min_dim v_bootstrap g = Inr (v_bootstrap, g)"
| "bootstrap_loop (Suc k) x y min_dim v_bootstrap g =
     (case np_random_choice (length x) (length x) g of
        Inl e \<Rightarrow> Inl e
      | Inr (indices, g1) \<Rightarrow>
     (case iloc x indices of
        Inl e \<Rightarrow> Inl e
      | Inr x_boot \<Rightarrow>
     (case iloc y indices of
        Inl e \<Rightarrow> Inl e
      | Inr y_boot \<Rightarrow>
     (case chi2_contingency (crosstab x_boot y_boot) of
        Inl e \<Rightarrow> Inl e
      | Inr chi2_boot \<Rightarrow>
          let v_boot = (if 0 < min_dim
                        then sqrt (chi2_boot / (real (length x) * real_of_int min_dim))
                        else 0)
          in bootstrap_loop k x y min_dim (v_bootstrap @ [v_boot]) g1))))"

text \<open>
  \<open>cramers_v_with_ci\<close> of generate_comprehensive_visualizations.py. \<open>seed42\<close> is the
  stream that \<open>np.random.seed(42)\<close> installs; the result carries the state in which the
  generator is left.
\<close>

definition cramers_v_with_ci ::
  "(nat \<Rightarrow> nat) \<Rightarrow> 'a::linorder list \<Rightarrow> 'b::linorder list \<Rightarrow> real \<Rightarrow> rng
     \<Rightarrow> error + ((real \<times> real \<times> real) \<times> rng)" where
  "cramers_v_with_ci seed42 x y confidence g =
     (let confusion_matrix = crosstab x y
      in case chi2_contingency confusion_matrix of
           Inl e \<Rightarrow> Inl e
         | Inr chi2_stat \<Rightarrow>
             let n = grand_total confusion_matrix;
                 min_dim = int (min (fst (shape confusion_matrix)) (snd (shape confusion_matrix))) - 1
             in if min_dim = 0 then Inr ((0, (0, 0)), g)
                else let v = sqrt (chi2_stat / (real n * real_of_int min_dim))
                  in case bootstrap_loop 1000 x y min_dim [] (np_random_seed seed42 g) of
                       Inl e \<Rightarrow> Inl e
                     | Inr (v_bootstrap, g1) \<Rightarrow>
                         let alpha = (1 - confidence) / 2
                         in case percentile v_bootstrap (alpha * 100) of
                              Inl e \<Rightarrow> Inl e
                            | Inr ci_lower \<Rightarrow>
                         (case percentile v_bootstrap ((1 - alpha) * 100) of
                              Inl e \<Rightarrow> Inl e
                            | Inr ci_upper \<Rightarrow> Inr ((v, (ci_lower, ci_upper)), g1)))"

section \<open>Effect size matrix\<close>

text \<open>
  The cells of the matrix are floats that the statistic function returns; whatever it
  returns is stored, also \<open>nan\<close> and the infinities. Such a float is a real number, an
  infinity or \<open>nan\<close>, and \<open>py_eq\<close> is the comparison \<open>==\<close> of floats, which is false
  as soon as one side is \<open>nan\<close>.
\<close>

datatype pyfloat = Num real | PosInf | NegInf | NaN



text \<open>
  \<open>build_effect_size_matrix\<close> of generate_cachai_effect_sizes.py. The table \<open>df\<close> maps a
  column name to its series, a missing name raises \<open>KeyError\<close>; the cells are computed
  row by row and the first exception ends the computation.
\<close>

fun sequence_results :: "(error + 'a) list \<Rightarrow> error + 'a list" where
  "sequence_results [] = Inr []"
| "sequence_results (r # rs) =
     (case r of
        Inl e \<Rightarrow> Inl e
      | Inr v \<Rightarrow> (case sequence_results rs of Inl e \<Rightarrow> Inl e | Inr vs \<Rightarrow> Inr (v # vs)))"

definition getitem :: "('n \<rightharpoonup> 'a) \<Rightarrow> 'n \<Rightarrow> error + 'a" where
  "getitem df name = (case df name of None \<Rightarrow> Inl KeyError | Some col \<Rightarrow> Inr col)"

definition effect_size_cell ::
  "('n \<rightharpoonup> 'a) \<Rightarrow> 'n list \<Rightarrow> ('a \<Rightarrow> 'a \<Rightarrow> error + pyfloat) \<Rightarrow> nat \<Rightarrow> nat
     \<Rightarrow> error + pyfloat" where
  "effect_size_cell df variables effect_func i j =
     (if i = j then Inr (Num 1)
      else case getitem df (variables ! i) of
             Inl e \<Rightarrow> Inl e
           | Inr xi \<Rightarrow> (case getitem df (variables ! j) of
                          Inl e \<Rightarrow> Inl e
                        | Inr xj \<Rightarrow> effect_func xi xj))"

definition build_effect_size_matrix ::
  "('n \<rightharpoonup> 'a) \<Rightarrow> 'n list \<Rightarrow> ('a \<Rightarrow> 'a \<Rightarrow> error + pyfloat)
     \<Rightarrow> error + ('n, 'n, pyfloat) frame" where
  "build_effect_size_matrix df variables effect_func =
     (let n_vars = length variables
      in case sequence_results
                (map (\<lambda>i. sequence_results
                             (map (\<lambda>j. effect_size_cell df variables effect_func i j) [0..<n_vars]))
                   [0..<n_vars]) of
           Inl e \<Rightarrow> Inl e
         | Inr matrix \<Rightarrow> Inr \<lparr>index = variables, columns = variables, cells = matrix\<rparr>)"

section \<open>Chord layout\<close>

text \<open>
  \<open>create_matplotlib_chord\<close> of generate_comprehensive_visualizations.py, as far as it
  computes: the normalised data, the node sizes, the chords drawn and the label rotations.
  The table is taken after \<open>astype(float)\<close>.
\<close>

definition frame_max :: "('r, 'c, real) frame \<Rightarrow> real option" where
  "frame_max t = (let vs = concat (cells t) in if vs = [] then None else Some (Max (set vs)))"

definition data_norm :: "('r, 'c, real) frame \<Rightarrow> real list list" where
  "data_norm t =
     (case frame_max t of
        None \<Rightarrow> cells t
      | Some data_max \<Rightarrow>
          if 0 < data_max then map (map (\<lambda>v. v / data_max)) (cells t) else cells t)"

definition angles :: "nat \<Rightarrow> nat \<Rightarrow> real" where
  "angles n_cats i = real i * (2 * pi / real n_cats)"

definition node_sizes :: "('r, 'c, real) frame \<Rightarrow> real list" where
  "node_sizes t =
     map (\<lambda>i. if i < length (index t) then sum_list (cells t ! i)
               else sum_list (map (\<lambda>row. row ! (i - length (index t))) (cells t)))
       [0..<length (index t) + length (columns t)]"

definition node_sizes_norm :: "('r, 'c, real) frame \<Rightarrow> error + real list" where
  "node_sizes_norm t =
     (let sizes = node_sizes t
      in if sizes = [] then Inl ValueError
         else let m = Max (set sizes)
           in if m = 0 then Inl NonFinite
              else Inr (map (\<lambda>s. s / m * (3 / 10)) sizes))"

record chord =
  source :: nat
  target :: nat
  radius :: real
  opacity :: real
  linewidth :: real

definition chords :: "('r, 'c, real) frame \<Rightarrow> real \<Rightarrow> chord list" where
  "chords t threshold =
     concat (map (\<lambda>i. concat (map (\<lambda>j.
         let v = data_norm t ! i ! j
         in if threshold < v
            then [\<lparr>source = i, target = j, radius = 8 / 10 + 1 / 10 * v,
                   opacity = 3 / 10 + 4 / 10 * v, linewidth = 2 * v\<rparr>]
            else [])
       [0..<length (columns t)])) [0..<length (index t)])"

definition degrees :: "real \<Rightarrow> real" where
  "degrees a = a * 180 / pi"

definition label_rotation :: "real \<Rightarrow> real" where
  "label_rotation angle =
     (let rotation = degrees angle in if pi < angle then rotation + 180 else rotation)"

text \<open>
  The correlation network drawn by \<open>main\<close> of generate_fixed_visualizations.py (graph 1):
  one line for each pair \<open>i < j\<close> whose absolute correlation exceeds \<open>threshold\<close>, a
  local variable that \<open>main\<close> sets to 0.15.
\<close>

record line =
  node_i :: nat
  node_j :: nat
  line_width :: real
  is_negative :: bool
  line_alpha :: real

definition correlation_lines :: "('r, 'c, real) frame \<Rightarrow> line list" where
  "correlation_lines corr_matrix =
     (let n_vars = length (columns corr_matrix);
          threshold = 15 / 100
      in concat (map (\<lambda>i. concat (map (\<lambda>j.
           let corr_val = \<bar>cells corr_matrix ! i ! j\<bar>
           in if threshold < corr_val
              then [\<lparr>node_i = i, node_j = j, line_width = 1 / 2 + (corr_val - threshold) * 8,
                     is_negative = (cells corr_matrix ! i ! j < 0),
                     line_alpha = min (3 / 10 + corr_val * (6 / 10)) (9 / 10)\<rparr>]
              else [])
         [i + 1..<n_vars])) [0..<n_vars]))"

text \<open>
  \<open>improve_chord_labels\<close> of generate_fixed_visualizations.py: each label moves outwards
  and is rotated by its polar angle in degrees. \<open>np.arctan2\<close> is the library's
  two-argument arc tangent, with values in \<open>(-\<pi>, \<pi>]\<close>.
\<close>

definition arctan2 :: "real \<Rightarrow> real \<Rightarrow> real" where
  "arctan2 y x =
     (if 0 < x then arctan (y / x)
      else if x < 0 then (if 0 \<le> y then arctan (y / x) + pi else arctan (y / x) - pi)
      else if 0 < y then pi / 2
      else if y < 0 then - (pi / 2)
      else 0)"

record label =
  text_position :: "real \<times> real"
  text_rotation :: real

definition improve_label :: "label \<Rightarrow> label" where
  "improve_label text =
     (let x = fst (text_position text);
          y = snd (text_position text);
          angle = arctan2 y x * 180 / pi;
          scale_factor = 118 / 100
      in \<lparr>text_position = (x * scale_factor, y * scale_factor),
          text_rotation = (if 90 < angle \<and> angle < 270 then angle - 180 else angle)\<rparr>)"

definition improve_chord_labels :: "label list \<Rightarrow> label list" where
  "improve_chord_labels texts = map improve_label texts"

section \<open>Auxiliary notions for the proofs\<close>

text \<open>
  The statistic of the library written over the observations themselves: \<open>ps\<close> is the
  list of paired observations, a row is a value occurring on the left, a column a value
  occurring on the right.
\<close>

definition observed_count :: "('a \<times> 'b) list \<Rightarrow> 'a \<Rightarrow> 'b \<Rightarrow> real" where
  "observed_count ps r c = real (count_list ps (r, c))"

definition expected_count :: "('a \<times> 'b) list \<Rightarrow> 'a \<Rightarrow> 'b \<Rightarrow> real" where
  "expected_count ps r c =
     real (count_list (map fst ps) r) * real (count_list (map snd ps) c) / real (length ps)"

definition chi2_cell :: "bool \<Rightarrow> ('a \<times> 'b) list \<Rightarrow> 'a \<Rightarrow> 'b \<Rightarrow> real" where
  "chi2_cell corr ps r c =
     ((if corr then yates (observed_count ps r c) (expected_count ps r c)
       else observed_count ps r c) - expected_count ps r c)\<^sup>2 / expected_count ps r c"

definition chi2_of_pairs :: "('a \<times> 'b) list \<Rightarrow> real" where
  "chi2_of_pairs ps =
     (let rows = fst ` set ps; cols = snd ` set ps
      in if card rows = 1 \<or> card cols = 1 then 0
         else \<Sum>r\<in>rows. \<Sum>c\<in>cols. chi2_cell (card rows = 2 \<and> card cols = 2) ps r c)"



text \<open>
  The index vector of the \<open>i\<close>-th resample of \<open>n\<close> observations from the stream, and
  the statistic of that resample written over the paired observations.
\<close>

definition resample_indices :: "(nat \<Rightarrow> nat) \<Rightarrow> nat \<Rightarrow> nat \<Rightarrow> nat list" where
  "resample_indices stream n i = map (\<lambda>k. stream (i * n + k) mod n) [0..<n]"

definition resample_v :: "(nat \<Rightarrow> nat) \<Rightarrow> 'a list \<Rightarrow> 'b list \<Rightarrow> nat \<Rightarrow> real" where
  "resample_v stream x y i =
     sqrt (chi2_of_pairs (map (\<lambda>k. zip x y ! k) (resample_indices stream (length x) i))
           / (real (length x) * (real (min (card (set x)) (card (set y))) - 1)))"

definition loop_v :: "'a list \<Rightarrow> 'b list \<Rightarrow> int \<Rightarrow> nat list \<Rightarrow> real" where
  "loop_v x y min_dim idx =
     (if 0 < min_dim
      then sqrt (chi2_of_pairs (map (\<lambda>k. zip x y ! k) idx) / (real (length x) * real_of_int min_dim))
      else 0)"

text \<open>The interpolation of \<open>percentile\<close> at position \<open>t\<close> of a sorted list.\<close>

definition interp :: "real list \<Rightarrow> real \<Rightarrow> real" where
  "interp arr t =
     (let i = nat \<lfloor>t\<rfloor>
      in if real (length arr) - 1 \<le> t then arr ! (length arr - 1)
         else arr ! i + (arr ! (i + 1) - arr ! i) * (t - real i))"

section \<open>Facts about the cross tabulation and the statistic\<close>

lemma sum_count_pairs_fst:
  "finite X \<Longrightarrow> snd ` set ps \<subseteq> X \<Longrightarrow> (\<Sum>c\<in>X. count_list ps (r, c)) = count_list (map fst ps) r"
proof (induction ps)
  case Nil
  then show ?case by simp
next
  case (Cons p ps)
  obtain a b where p: "p = (a, b)" by (cases p)
  from Cons.prems have bX: "b \<in> X" and sub: "snd ` set ps \<subseteq> X" by (auto simp: p)
  have "(\<Sum>c\<in>X. count_list (p # ps) (r, c)) = (\<Sum>c\<in>X. count_list ps (r, c) + (if c = b \<and> a = r then 1 else 0))"
    by (intro sum.cong) (auto simp: p)
  also have "\<dots> = (\<Sum>c\<in>X. count_list ps (r, c)) + (\<Sum>c\<in>X. if c = b \<and> a = r then 1 else 0)"
    by (simp add: sum.distrib)
  also have "(\<Sum>c\<in>X. if c = b \<and> a = r then 1 else 0) = (if a = r then 1 else (0::nat))"
    using Cons.prems(1) bX by (cases "a = r") simp_all
  finally show ?case using Cons.IH [OF Cons.prems(1) sub] by (simp add: p)
qed

lemma sum_count_pairs_snd:
  "finite X \<Longrightarrow> fst ` set ps \<subseteq> X \<Longrightarrow> (\<Sum>r\<in>X. count_list ps (r, c)) = count_list (map snd ps) c"
proof (induction ps)
  case Nil
  then show ?case by simp
next
  case (Cons p ps)
  obtain a b where p: "p = (a, b)" by (cases p)
  from Cons.prems have aX: "a \<in> X" and sub: "fst ` set ps \<subseteq> X" by (auto simp: p)
  have "(\<Sum>r\<in>X. count_list (p # ps) (r, c)) = (\<Sum>r\<in>X. count_list ps (r, c) + (if r = a \<and> b = c then 1 else 0))"
    by (intro sum.cong) (auto simp: p)
  also have "\<dots> = (\<Sum>r\<in>X. count_list ps (r, c)) + (\<Sum>r\<in>X. if r = a \<and> b = c then 1 else 0)"
    by (simp add: sum.distrib)
  also have "(\<Sum>r\<in>X. if r = a \<and> b = c then 1 else 0) = (if b = c then 1 else (0::nat))"
    using Cons.prems(1) aX by (cases "b = c") simp_all
  finally show ?case using Cons.IH [OF Cons.prems(1) sub] by (simp add: p)
qed

lemma sum_list_sorted_remdups:
  "sum_list (map f (sort (remdups zs))) = sum f (set zs)"
proof -
  have "sum_list (map f (sort (remdups zs))) = sum f (set (sort (remdups zs)))"
    by (rule sum_list_distinct_conv_sum_set) simp
  then show ?thesis by simp
qed

lemma map_nth_upt: "map (\<lambda>j. f (cs ! j)) [0..<length cs] = map f cs"
  by (rule nth_equalityI) simp_all

lemma cells_crosstab:
  "cells (crosstab x y) =
     map (\<lambda>r. map (\<lambda>c. count_list (zip x y) (r, c)) (sort (remdups (map snd (zip x y)))))
       (sort (remdups (map fst (zip x y))))"
  by (simp add: crosstab_def Let_def)

lemma shape_crosstab:
  "shape (crosstab x y) = (card (fst ` set (zip x y)), card (snd ` set (zip x y)))"
  by (simp add: crosstab_def shape_def Let_def length_remdups_card_conv)

lemma row_sums_crosstab:
  "row_sums (crosstab x y) =
     map (\<lambda>r. count_list (map fst (zip x y)) r) (sort (remdups (map fst (zip x y))))"
  by (simp add: row_sums_def cells_crosstab comp_def sum_list_sorted_remdups
      sum_count_pairs_fst [where X = "snd ` set (zip x y)"])

lemma col_sums_crosstab:
  "col_sums (crosstab x y) =
     map (\<lambda>c. count_list (map snd (zip x y)) c) (sort (remdups (map snd (zip x y))))"
proof -
  let ?ps = "zip x y"
  let ?A = "sort (remdups (map fst ?ps))"
  let ?B = "sort (remdups (map snd ?ps))"
  have "col_sums (crosstab x y) =
      map (\<lambda>j. sum_list (map (\<lambda>r. count_list ?ps (r, ?B ! j)) ?A)) [0..<length ?B]"
    by (simp add: col_sums_def cells_crosstab crosstab_def Let_def comp_def)
  also have "\<dots> = map (\<lambda>c. sum_list (map (\<lambda>r. count_list ?ps (r, c)) ?A)) ?B"
    by (rule map_nth_upt)
  also have "\<dots> = map (\<lambda>c. count_list (map snd ?ps) c) ?B"
    by (simp add: sum_list_sorted_remdups sum_count_pairs_snd [where X = "fst ` set ?ps"])
  finally show ?thesis .
qed

lemma total_crosstab: "grand_total (crosstab x y) = length (zip x y)"
proof -
  have "grand_total (crosstab x y) = sum (count_list (map snd (zip x y))) (set (map snd (zip x y)))"
    by (simp only: grand_total_def col_sums_crosstab sum_list_sorted_remdups)
  also have "\<dots> = length (map snd (zip x y))"
    by (rule sum_count_set) simp_all
  finally show ?thesis by simp
qed

lemma expected_freq_crosstab:
  "expected_freq (crosstab x y) =
     map (\<lambda>r. map (\<lambda>c. expected_count (zip x y) r c) (sort (remdups (map snd (zip x y)))))
       (sort (remdups (map fst (zip x y))))"
  by (simp add: expected_freq_def row_sums_crosstab col_sums_crosstab total_crosstab
      expected_count_def comp_def)

lemma observed_crosstab:
  "map (map real) (cells (crosstab x y)) =
     map (\<lambda>r. map (\<lambda>c. observed_count (zip x y) r c) (sort (remdups (map snd (zip x y)))))
       (sort (remdups (map fst (zip x y))))"
  by (simp add: cells_crosstab observed_count_def comp_def)

lemma power_divergence_maps:
  "power_divergence (map (\<lambda>r. map (f r) B) A) (map (\<lambda>r. map (g r) B) A) =
     (\<Sum>r\<leftarrow>A. \<Sum>c\<leftarrow>B. (f r c - g r c)\<^sup>2 / g r c)"
  by (simp add: power_divergence_def zip_map_map zip_same_conv_map comp_def)

lemma map2_yates_maps:
  "map2 (map2 yates) (map (\<lambda>r. map (f r) B) A) (map (\<lambda>r. map (g r) B) A) =
     map (\<lambda>r. map (\<lambda>c. yates (f r c) (g r c)) B) A"
  by (simp add: zip_map_map zip_same_conv_map comp_def)

lemma expected_count_pos:
  assumes "r \<in> fst ` set ps" "c \<in> snd ` set ps"
  shows "0 < expected_count ps r c"
proof -
  from assms have "r \<in> set (map fst ps)" "c \<in> set (map snd ps)" by force+
  then have "count_list (map fst ps) r \<noteq> 0" "count_list (map snd ps) c \<noteq> 0"
    by (simp_all only: count_list_0_iff not_not)
  moreover from assms have "0 < length ps" by (cases ps) auto
  ultimately show ?thesis by (simp add: expected_count_def)
qed

lemma dof_product:
  fixes r c :: nat
  shows "int (r * c) - int (r + c) + 2 - 1 = (int r - 1) * (int c - 1)"
  by (simp add: algebra_simps)

lemma dof_zero:
  fixes r c :: nat
  shows "(int (r * c) - int (r + c) + 2 - 1 = 0) = (r = 1 \<or> c = 1)"
  unfolding dof_product by auto

lemma dof_one:
  fixes r c :: nat
  assumes "0 < r" "0 < c"
  shows "(int (r * c) - int (r + c) + 2 - 1 = 1) = (r = 2 \<and> c = 2)"
proof -
  have "((int r - 1) * (int c - 1) = 1) = (int r - 1 = 1 \<and> int c - 1 = 1)"
    using assms by (auto simp: zmult_eq_1_iff)
  then show ?thesis unfolding dof_product by auto
qed

lemma chi2_contingency_crosstab:
  assumes "zip x y \<noteq> []"
  shows "chi2_contingency (crosstab x y) = Inr (chi2_of_pairs (zip x y))"
proof -
  let ?ps = "zip x y"
  let ?A = "sort (remdups (map fst ?ps))"
  let ?B = "sort (remdups (map snd ?ps))"
  let ?r = "card (fst ` set ?ps)"
  let ?c = "card (snd ` set ?ps)"
  from assms have ne: "set ?ps \<noteq> {}" by simp
  then have r: "0 < ?r" and c: "0 < ?c" by (simp_all add: card_gt_0_iff)
  have nz: "\<not> list_ex (list_ex (\<lambda>e. e = 0)) (expected_freq (crosstab x y))"
    using expected_count_pos [of _ ?ps] 
    by (fastforce simp: expected_freq_crosstab list_ex_iff)
  have sums: "(\<Sum>r\<leftarrow>?A. \<Sum>c\<leftarrow>?B. f r c) = (\<Sum>r\<in>fst ` set ?ps. \<Sum>c\<in>snd ` set ?ps. f r c)"
    for f :: "'a \<Rightarrow> 'b \<Rightarrow> real"
    by (simp add: sum_list_sorted_remdups)
  define corr where "corr = (?r = 2 \<and> ?c = 2)"
  have d0: "(int (?r * ?c) - int (?r + ?c) + 2 - 1 = 0) = (?r = 1 \<or> ?c = 1)"
    by (rule dof_zero)
  have d1: "(int (?r * ?c) - int (?r + ?c) + 2 - 1 = 1) = corr"
    unfolding corr_def using r c by (rule dof_one)
  have size: "?r * ?c \<noteq> 0" using assms by simp
  have "chi2_contingency (crosstab x y) =
      Inr (if ?r = 1 \<or> ?c = 1 then 0
           else power_divergence
             (if corr
              then map2 (map2 yates) (map (map real) (cells (crosstab x y))) (expected_freq (crosstab x y))
              else map (map real) (cells (crosstab x y)))
             (expected_freq (crosstab x y)))"
    unfolding chi2_contingency_def Let_def shape_crosstab fst_conv snd_conv d0 d1
    using size nz assms by simp
  also have "\<dots> = Inr (if ?r = 1 \<or> ?c = 1 then 0
           else \<Sum>r\<in>fst ` set ?ps. \<Sum>c\<in>snd ` set ?ps. chi2_cell corr ?ps r c)"
    by (cases corr)
      (simp_all add: expected_freq_crosstab observed_crosstab map2_yates_maps
        power_divergence_maps sums chi2_cell_def)
  also have "\<dots> = Inr (chi2_of_pairs ?ps)"
    by (simp add: chi2_of_pairs_def Let_def corr_def)
  finally show ?thesis .
qed

lemma yates_shrinks: "(yates ob ex - ex)\<^sup>2 \<le> (ob - ex)\<^sup>2"
proof -
  have "\<bar>yates ob ex - ex\<bar> \<le> \<bar>ob - ex\<bar>"
    by (cases "ex - ob" "0::real" rule: linorder_cases) (simp_all add: yates_def Let_def min_def)
  then show ?thesis by (rule abs_le_square_iff [THEN iffD1])
qed

lemma chi2_term_bound:
  fixes ob ex n rs cs :: real
  assumes "0 \<le> ob" "ob \<le> cs" "0 < rs" "0 < cs" "0 < n" "ex = rs * cs / n"
  shows "(ob - ex)\<^sup>2 / ex \<le> ob * n / rs - 2 * ob + ex"
proof -
  have ex: "0 < ex" using assms by simp
  have "(ob - ex)\<^sup>2 / ex = ob\<^sup>2 / ex - 2 * ob + ex"
    using ex by (simp add: power2_eq_square field_simps)
  moreover have "ob\<^sup>2 / ex \<le> ob * n / rs"
  proof -
    have sq: "ob * ob \<le> ob * cs"
      using assms(2,1) by (rule mult_left_mono)
    have "ob\<^sup>2 / ex = (ob * ob) * n / (rs * cs)"
      using assms by (simp add: power2_eq_square)
    also have "\<dots> \<le> (ob * cs) * n / (rs * cs)"
      using assms sq by (intro divide_right_mono mult_right_mono) auto
    also have "\<dots> = ob * n / rs"
      using assms by simp
    finally show ?thesis .
  qed
  ultimately show ?thesis by simp
qed

lemma chi2_rows_bound:
  fixes f :: "'a \<Rightarrow> 'b \<Rightarrow> real"
  assumes fin: "finite A" "finite B"
    and nonneg: "\<And>r c. r \<in> A \<Longrightarrow> c \<in> B \<Longrightarrow> 0 \<le> f r c"
    and rpos: "\<And>r. r \<in> A \<Longrightarrow> 0 < (\<Sum>c\<in>B. f r c)"
    and cpos: "\<And>c. c \<in> B \<Longrightarrow> 0 < (\<Sum>r\<in>A. f r c)"
    and n: "n = (\<Sum>r\<in>A. \<Sum>c\<in>B. f r c)" "0 < n"
  shows "(\<Sum>r\<in>A. \<Sum>c\<in>B.
            (f r c - (\<Sum>c\<in>B. f r c) * (\<Sum>r\<in>A. f r c) / n)\<^sup>2
              / ((\<Sum>c\<in>B. f r c) * (\<Sum>r\<in>A. f r c) / n))
         \<le> n * (real (card A) - 1)"
proof -
  let ?R = "\<lambda>r. \<Sum>c\<in>B. f r c"
  let ?C = "\<lambda>c. \<Sum>r\<in>A. f r c"
  let ?E = "\<lambda>r c. ?R r * ?C c / n"
  have csum: "(\<Sum>c\<in>B. ?C c) = n"
    unfolding n(1) by (rule sum.swap)
  have row: "(\<Sum>c\<in>B. (f r c - ?E r c)\<^sup>2 / ?E r c) \<le> n - ?R r" if r: "r \<in> A" for r
  proof -
    have "(\<Sum>c\<in>B. (f r c - ?E r c)\<^sup>2 / ?E r c) \<le> (\<Sum>c\<in>B. f r c * n / ?R r - 2 * f r c + ?E r c)"
    proof (rule sum_mono)
      fix c assume c: "c \<in> B"
      have "f r c \<le> ?C c"
        using fin(1) r nonneg c by (intro member_le_sum) auto
      then show "(f r c - ?E r c)\<^sup>2 / ?E r c \<le> f r c * n / ?R r - 2 * f r c + ?E r c"
        using nonneg [OF r c] rpos [OF r] cpos [OF c] n(2) by (intro chi2_term_bound) auto
    qed
    also have "\<dots> = (\<Sum>c\<in>B. f r c) * n / ?R r - 2 * ?R r + ?R r * (\<Sum>c\<in>B. ?C c) / n"
      by (simp add: sum.distrib sum_subtractf sum_distrib_left sum_distrib_right sum_divide_distrib)
    also have "\<dots> = n - ?R r"
      using rpos [OF r] n(2) by (simp add: csum)
    finally show ?thesis .
  qed
  have "(\<Sum>r\<in>A. \<Sum>c\<in>B. (f r c - ?E r c)\<^sup>2 / ?E r c) \<le> (\<Sum>r\<in>A. n - ?R r)"
    by (rule sum_mono) (rule row)
  also have "\<dots> = n * real (card A) - n"
    by (simp add: sum_subtractf n(1))
  finally show ?thesis by (simp add: algebra_simps)
qed

lemma observed_count_nonneg: "0 \<le> observed_count ps r c"
  by (simp add: observed_count_def)

lemma observed_row_sum:
  "(\<Sum>c\<in>snd ` set ps. observed_count ps r c) = real (count_list (map fst ps) r)"
  unfolding observed_count_def of_nat_sum [symmetric]
  by (simp add: sum_count_pairs_fst)

lemma observed_col_sum:
  "(\<Sum>r\<in>fst ` set ps. observed_count ps r c) = real (count_list (map snd ps) c)"
  unfolding observed_count_def of_nat_sum [symmetric]
  by (simp add: sum_count_pairs_snd)

lemma observed_total:
  "(\<Sum>r\<in>fst ` set ps. \<Sum>c\<in>snd ` set ps. observed_count ps r c) = real (length ps)"
proof -
  have "(\<Sum>r\<in>set (map fst ps). count_list (map fst ps) r) = length (map fst ps)"
    by (rule sum_count_set) simp_all
  then have "(\<Sum>r\<in>fst ` set ps. real (count_list (map fst ps) r)) = real (length ps)"
    unfolding of_nat_sum [symmetric] by simp
  then show ?thesis by (simp add: observed_row_sum)
qed

lemma expected_count_sums:
  "expected_count ps r c =
     (\<Sum>c\<in>snd ` set ps. observed_count ps r c) * (\<Sum>r\<in>fst ` set ps. observed_count ps r c)
       / real (length ps)"
  by (simp add: expected_count_def observed_row_sum observed_col_sum)

lemma chi2_cell_nonneg:
  "r \<in> fst ` set ps \<Longrightarrow> c \<in> snd ` set ps \<Longrightarrow> 0 \<le> chi2_cell corr ps r c"
  using expected_count_pos [of r ps c] by (simp add: chi2_cell_def)

lemma chi2_cell_corrected_le:
  assumes "r \<in> fst ` set ps" "c \<in> snd ` set ps"
  shows "chi2_cell corr ps r c \<le> chi2_cell False ps r c"
proof (cases corr)
  case True
  have "(yates (observed_count ps r c) (expected_count ps r c) - expected_count ps r c)\<^sup>2
          / expected_count ps r c
        \<le> (observed_count ps r c - expected_count ps r c)\<^sup>2 / expected_count ps r c"
    using expected_count_pos [OF assms] by (intro divide_right_mono yates_shrinks) simp
  with True show ?thesis by (simp add: chi2_cell_def)
next
  case False
  then show ?thesis by simp
qed

lemma chi2_plain_rows:
  assumes "ps \<noteq> []"
  shows "(\<Sum>r\<in>fst ` set ps. \<Sum>c\<in>snd ` set ps. chi2_cell False ps r c)
           \<le> real (length ps) * (real (card (fst ` set ps)) - 1)"
proof -
  have rpos: "0 < (\<Sum>c\<in>snd ` set ps. observed_count ps r c)" if "r \<in> fst ` set ps" for r
  proof -
    from that have "r \<in> set (map fst ps)" by simp
    then have "count_list (map fst ps) r \<noteq> 0" by (simp only: count_list_0_iff not_not)
    then show ?thesis by (simp add: observed_row_sum)
  qed
  have cpos: "0 < (\<Sum>r\<in>fst ` set ps. observed_count ps r c)" if "c \<in> snd ` set ps" for c
  proof -
    from that have "c \<in> set (map snd ps)" by simp
    then have "count_list (map snd ps) c \<noteq> 0" by (simp only: count_list_0_iff not_not)
    then show ?thesis by (simp add: observed_col_sum)
  qed
  have "(\<Sum>r\<in>fst ` set ps. \<Sum>c\<in>snd ` set ps.
            (observed_count ps r c
              - (\<Sum>c\<in>snd ` set ps. observed_count ps r c) * (\<Sum>r\<in>fst ` set ps. observed_count ps r c)
                  / real (length ps))\<^sup>2
              / ((\<Sum>c\<in>snd ` set ps. observed_count ps r c) * (\<Sum>r\<in>fst ` set ps. observed_count ps r c)
                  / real (length ps)))
         \<le> real (length ps) * (real (card (fst ` set ps)) - 1)"
    using assms
    by (intro chi2_rows_bound rpos cpos) (simp_all add: observed_total observed_count_nonneg)
  then show ?thesis
    by (simp only: chi2_cell_def if_False expected_count_sums)
qed

lemma chi2_plain_cols:
  assumes "ps \<noteq> []"
  shows "(\<Sum>r\<in>fst ` set ps. \<Sum>c\<in>snd ` set ps. chi2_cell False ps r c)
           \<le> real (length ps) * (real (card (snd ` set ps)) - 1)"
proof -
  let ?qs = "map prod.swap ps"
  have sets: "fst ` set ?qs = snd ` set ps" "snd ` set ?qs = fst ` set ps"
    by force+
  have cnt: "count_list ?qs (c, r) = count_list ps (r, c)" for r c
    by (induction ps) auto
  have m: "map fst ?qs = map snd ps" "map snd ?qs = map fst ps"
    by simp_all
  have cell: "chi2_cell False ?qs c r = chi2_cell False ps r c" for r c
    unfolding chi2_cell_def observed_count_def expected_count_def cnt m length_map
    by (simp add: mult.commute)
  from assms have "?qs \<noteq> []" by simp
  then have "(\<Sum>c\<in>fst ` set ?qs. \<Sum>r\<in>snd ` set ?qs. chi2_cell False ?qs c r)
           \<le> real (length ?qs) * (real (card (fst ` set ?qs)) - 1)"
    by (rule chi2_plain_rows)
  then have "(\<Sum>c\<in>snd ` set ps. \<Sum>r\<in>fst ` set ps. chi2_cell False ps r c)
           \<le> real (length ps) * (real (card (snd ` set ps)) - 1)"
    by (simp only: sets cell length_map)
  then show ?thesis by (subst sum.swap)
qed

lemma chi2_of_pairs_nonneg: "0 \<le> chi2_of_pairs ps"
  by (simp add: chi2_of_pairs_def Let_def sum_nonneg chi2_cell_nonneg)

lemma chi2_of_pairs_le:
  assumes "ps \<noteq> []"
  shows "chi2_of_pairs ps
           \<le> real (length ps) * (real (min (card (fst ` set ps)) (card (snd ` set ps))) - 1)"
proof -
  let ?r = "card (fst ` set ps)" and ?c = "card (snd ` set ps)"
  from assms have "set ps \<noteq> {}" by simp
  then have pos: "0 < ?r" "0 < ?c" by (simp_all add: card_gt_0_iff)
  show ?thesis
  proof (cases "?r = 1 \<or> ?c = 1")
    case True
    then have "chi2_of_pairs ps = 0" by (simp add: chi2_of_pairs_def Let_def)
    moreover have "0 \<le> real (length ps) * (real (min ?r ?c) - 1)"
      using pos by (intro mult_nonneg_nonneg) (auto simp: min_def)
    ultimately show ?thesis by simp
  next
    case False
    then have "chi2_of_pairs ps
        = (\<Sum>r\<in>fst ` set ps. \<Sum>c\<in>snd ` set ps. chi2_cell (?r = 2 \<and> ?c = 2) ps r c)"
      by (simp add: chi2_of_pairs_def Let_def)
    also have "\<dots> \<le> (\<Sum>r\<in>fst ` set ps. \<Sum>c\<in>snd ` set ps. chi2_cell False ps r c)"
      by (intro sum_mono chi2_cell_corrected_le)
    finally have le: "chi2_of_pairs ps \<le> (\<Sum>r\<in>fst ` set ps. \<Sum>c\<in>snd ` set ps. chi2_cell False ps r c)" .
    show ?thesis
      using le chi2_plain_rows [OF assms] chi2_plain_cols [OF assms]
      by (cases "?r \<le> ?c") (simp_all add: min_def)
  qed
qed

lemma zip_sets:
  assumes "length x = length y"
  shows "fst ` set (zip x y) = set x" "snd ` set (zip x y) = set y"
  using assms by (simp_all flip: set_map)

lemma cramers_v_crosstab:
  assumes "length x = length y" "x \<noteq> []"
  shows "cramers_v x y =
     Inr (if int (min (card (set x)) (card (set y))) - 1 = 0 then 0
          else sqrt (chi2_of_pairs (zip x y)
                 / (real (length x) * real_of_int (int (min (card (set x)) (card (set y))) - 1))))"
proof -
  from assms have ne: "zip x y \<noteq> []" by (cases x; cases y) auto
  show ?thesis
    using assms(1)
    by (simp add: cramers_v_def chi2_contingency_crosstab [OF ne] total_crosstab shape_crosstab
        zip_sets Let_def)
qed

lemma phi_coefficient_crosstab:
  assumes "length x = length y" "x \<noteq> []"
  shows "phi_coefficient x y = Inr (sqrt (chi2_of_pairs (zip x y) / real (length x)))"
proof -
  from assms have ne: "zip x y \<noteq> []" by (cases x; cases y) auto
  show ?thesis
    using assms(1)
    by (simp add: phi_coefficient_def chi2_contingency_crosstab [OF ne] total_crosstab Let_def)
qed



text \<open>
  Cramer's V and Phi are symmetric in their arguments: exchanging the series transposes
  the table, which changes neither the statistic nor the total nor the smaller dimension.
  The sums are sums of real numbers here; the scripts add the same floating-point terms
  in the order of the transposed table.
\<close>

lemma zip_swap: "zip y x = map prod.swap (zip x y)"
  by (induction x arbitrary: y) (auto simp: zip_Cons1 zip_Cons split: list.splits)

lemma chi2_of_pairs_swap: "chi2_of_pairs (map prod.swap ps) = chi2_of_pairs ps"
proof -
  let ?qs = "map prod.swap ps"
  have sets: "fst ` set ?qs = snd ` set ps" "snd ` set ?qs = fst ` set ps"
    by force+
  have cnt: "count_list ?qs (c, r) = count_list ps (r, c)" for r c
    by (induction ps) auto
  have m: "map fst ?qs = map snd ps" "map snd ?qs = map fst ps"
    by simp_all
  have cell: "chi2_cell corr ?qs c r = chi2_cell corr ps r c" for r c corr
    unfolding chi2_cell_def observed_count_def expected_count_def cnt m length_map
    by (simp add: mult.commute)
  have "(\<Sum>c\<in>snd ` set ps. \<Sum>r\<in>fst ` set ps. chi2_cell corr ps r c)
      = (\<Sum>r\<in>fst ` set ps. \<Sum>c\<in>snd ` set ps. chi2_cell corr ps r c)" for corr
    by (rule sum.swap)
  then show ?thesis
    unfolding chi2_of_pairs_def Let_def sets cell
    by (simp add: conj_commute disj_commute)
qed

lemma chi2_contingency_empty:
  assumes "zip x y = []"
  shows "chi2_contingency (crosstab x y) = Inl ValueError"
  using assms by (simp add: chi2_contingency_def shape_crosstab Let_def)


lemma phi_coefficient_symmetric: "phi_coefficient x y = phi_coefficient y x"
proof (cases "zip x y = []")
  case True
  then have "zip y x = []" by (simp add: zip_swap [of y x])
  with True show ?thesis
    by (simp add: phi_coefficient_def chi2_contingency_empty)
next
  case False
  then have ne: "zip y x \<noteq> []" by (simp add: zip_swap [of y x])
  have chi: "chi2_of_pairs (zip y x) = chi2_of_pairs (zip x y)"
    by (simp only: zip_swap [of y x] chi2_of_pairs_swap)
  show ?thesis
    unfolding phi_coefficient_def Let_def chi2_contingency_crosstab [OF False]
      chi2_contingency_crosstab [OF ne] total_crosstab chi
    by (simp add: zip_swap [of y x])
qed


section \<open>Claims about the association statistics\<close>


text \<open>
  Claim C2, amended. For equal-length series with at least one observation, \<open>cramers_v\<close>
  and \<open>phi_coefficient\<close> return, and the values they return are at least 0.
\<close>

theorem effect_size_ranges:
  assumes "length x = length y" "x \<noteq> []"
  shows "\<exists>v p. cramers_v x y = Inr v \<and> 0 \<le> v \<and> phi_coefficient x y = Inr p \<and> 0 \<le> p"
proof -
  let ?m = "min (card (set x)) (card (set y))"
  let ?chi2 = "chi2_of_pairs (zip x y)"
  from assms(2) have n: "0 < real (length x)" by simp
  from assms have "y \<noteq> []" by (cases y) auto
  with assms have "set x \<noteq> {}" "set y \<noteq> {}" by simp_all
  then have m: "1 \<le> ?m" by (simp add: Suc_le_eq card_gt_0_iff)
  have nonneg: "0 \<le> ?chi2" by (rule chi2_of_pairs_nonneg)
  have v0: "0 \<le> sqrt (?chi2 / (real (length x) * real_of_int (int ?m - 1)))" if "int ?m - 1 \<noteq> 0"
  proof -
    from that m have "0 < int ?m - 1" by linarith
    then have pos: "0 < real_of_int (int ?m - 1)" by (simp only: of_int_0_less_iff)
    then show ?thesis using nonneg n by simp
  qed
  show ?thesis
    unfolding cramers_v_crosstab [OF assms] phi_coefficient_crosstab [OF assms]
    using v0 nonneg n by (cases "int ?m - 1 = 0") simp_all
qed

text \<open>
  Over the real numbers the statistic is at most \<open>N * (min rows cols - 1)\<close>, so that the
  exact value of Cramer's V is at most 1 and the exact value of Phi at most
  \<open>sqrt (min rows cols - 1)\<close>. The scripts compute in floating point, where the rounded
  sum can exceed these bounds in the last digits, so the bounds describe the exact values
  only.
\<close>

lemma exact_upper_bounds:
  assumes "length x = length y" "x \<noteq> []"
  shows "\<exists>v p. cramers_v x y = Inr v \<and> v \<le> 1
           \<and> phi_coefficient x y = Inr p
           \<and> p \<le> sqrt (real (min (card (set x)) (card (set y))) - 1)"
proof -
  let ?m = "min (card (set x)) (card (set y))"
  let ?chi2 = "chi2_of_pairs (zip x y)"
  from assms have ne: "zip x y \<noteq> []" by (cases x; cases y) auto
  from assms(2) have n: "0 < real (length x)" by simp
  from assms have "y \<noteq> []" by (cases y) auto
  with assms have "set x \<noteq> {}" "set y \<noteq> {}" by simp_all
  then have m: "1 \<le> ?m" by (simp add: Suc_le_eq card_gt_0_iff)
  have le: "?chi2 \<le> real (length x) * (real ?m - 1)"
    using chi2_of_pairs_le [OF ne] assms(1) by (simp add: zip_sets)
  have phi: "sqrt (?chi2 / real (length x)) \<le> sqrt (real ?m - 1)"
  proof -
    have "?chi2 / real (length x) \<le> real ?m - 1"
      using le n by (simp add: field_simps)
    then show ?thesis by simp
  qed
  have v: "sqrt (?chi2 / (real (length x) * real_of_int (int ?m - 1))) \<le> 1" if "int ?m - 1 \<noteq> 0"
  proof -
    from that m have pos: "0 < real ?m - 1" by linarith
    have eq: "real_of_int (int ?m - 1) = real ?m - 1" by simp
    have "?chi2 / (real (length x) * (real ?m - 1)) \<le> 1"
      using le n pos by (simp add: field_simps)
    then show ?thesis unfolding eq by simp
  qed
  show ?thesis
    unfolding cramers_v_crosstab [OF assms] phi_coefficient_crosstab [OF assms]
    using v phi by (cases "int ?m - 1 = 0") simp_all
qed

text \<open>
  Claim C5. When the series have equal length and one of them has a single distinct
  value, \<open>cramers_v\<close> and \<open>phi_coefficient\<close> both return exactly 0, and neither raises.
\<close>

theorem single_category_zero:
  assumes "length x = length y" "card (set x) = 1 \<or> card (set y) = 1"
  shows "cramers_v x y = Inr 0 \<and> phi_coefficient x y = Inr 0"
proof -
  from assms have "x \<noteq> []" by auto
  moreover have "chi2_of_pairs (zip x y) = 0"
    using assms by (simp add: chi2_of_pairs_def zip_sets Let_def)
  moreover have "int (min (card (set x)) (card (set y))) - 1 = 0"
  proof -
    from \<open>x \<noteq> []\<close> assms(1) have "set x \<noteq> {}" "set y \<noteq> {}" by auto
    then have "1 \<le> card (set x)" "1 \<le> card (set y)" by (simp_all add: Suc_le_eq card_gt_0_iff)
    with assms(2) show ?thesis by (auto simp: min_def)
  qed
  ultimately show ?thesis
    using assms(1) by (simp add: cramers_v_crosstab phi_coefficient_crosstab)
qed

lemma chi2_diag3: "chi2_contingency (crosstab [0::int, 1, 2] [0::int, 1, 2]) = Inr 6"
  by code_simp





lemma example_cards:
  "card (set [0::int, 0, 1, 1]) = 2" "card (set [0::int, 1, 0, 1]) = 2"
  "card (set [0::int, 1, 2, 2]) = 3"
  by code_simp+


text \<open>
  Claim C2 as stated fails for \<open>phi_coefficient\<close>: on three observations with three
  distinct, perfectly associated values it returns \<open>sqrt 2\<close>.
\<close>

theorem phi_exceeds_one:
  "phi_coefficient [0::int, 1, 2] [0::int, 1, 2] = Inr (sqrt 2) \<and> 1 < sqrt 2"
  by (simp add: phi_coefficient_def chi2_diag3 total_crosstab)


theorem single_category_zero_witness:
  "cramers_v [5::int, 5, 5] [0::int, 1, 2] = Inr 0 \<and> phi_coefficient [5::int, 5, 5] [0::int, 1, 2] = Inr 0"
  using single_category_zero [of "[5::int, 5, 5]" "[0::int, 1, 2]"] by simp

theorem effect_size_ranges_witness:
  "\<exists>v p. cramers_v [0::int, 1, 1] [0::int, 1, 2] = Inr v \<and> 0 \<le> v
     \<and> phi_coefficient [0::int, 1, 1] [0::int, 1, 2] = Inr p \<and> 0 \<le> p"
  using effect_size_ranges [of "[0::int, 1, 1]" "[0::int, 1, 2]"] by simp

section \<open>Facts about resampling and percentiles\<close>

lemma zip_nonempty:
  assumes "length x = length y" "x \<noteq> []"
  shows "zip x y \<noteq> []"
  using assms by (cases x; cases y) auto

lemma resample_indices_bound:
  assumes "0 < n"
  shows "length (resample_indices stream n i) = n"
    and "\<And>j. j \<in> set (resample_indices stream n i) \<Longrightarrow> j < n"
  using assms by (auto simp: resample_indices_def)

lemma resample_indices_shift:
  "resample_indices (\<lambda>k. stream (p + n + k)) n i = resample_indices (\<lambda>k. stream (p + k)) n (Suc i)"
  by (simp add: resample_indices_def ac_simps)

lemma zip_map_nth:
  assumes "length x = length y" "\<And>j. j \<in> set idx \<Longrightarrow> j < length x"
  shows "zip (map (\<lambda>i. x ! i) idx) (map (\<lambda>i. y ! i) idx) = map (\<lambda>k. zip x y ! k) idx"
  using assms by (simp add: zip_map_map zip_same_conv_map)

lemma resample_chi2:
  fixes x :: "'a::linorder list" and y :: "'b::linorder list"
  assumes "length x = length y" "\<And>j. j \<in> set idx \<Longrightarrow> j < length x" "idx \<noteq> []"
  shows "chi2_contingency (crosstab (map (\<lambda>i. x ! i) idx) (map (\<lambda>i. y ! i) idx))
           = Inr (chi2_of_pairs (map (\<lambda>k. zip x y ! k) idx))"
proof -
  have z: "zip (map (\<lambda>i. x ! i) idx) (map (\<lambda>i. y ! i) idx) = map (\<lambda>k. zip x y ! k) idx"
    using assms(1,2) by (rule zip_map_nth)
  from assms(3) have "zip (map (\<lambda>i. x ! i) idx) (map (\<lambda>i. y ! i) idx) \<noteq> []"
    unfolding z by simp
  then have "chi2_contingency (crosstab (map (\<lambda>i. x ! i) idx) (map (\<lambda>i. y ! i) idx))
      = Inr (chi2_of_pairs (zip (map (\<lambda>i. x ! i) idx) (map (\<lambda>i. y ! i) idx)))"
    by (rule chi2_contingency_crosstab)
  then show ?thesis by (simp only: z)
qed

lemma bootstrap_step:
  fixes x :: "'a::linorder list" and y :: "'b::linorder list"
  assumes len: "length x = length y" and ne: "x \<noteq> []"
  shows "bootstrap_loop (Suc k) x y min_dim acc g =
     bootstrap_loop k x y min_dim
       (acc @ [loop_v x y min_dim (resample_indices (\<lambda>k. raw g (pos g + k)) (length x) 0)])
       (g\<lparr>pos := pos g + length x\<rparr>)"
proof -
  let ?n = "length x"
  let ?idx = "resample_indices (\<lambda>k. raw g (pos g + k)) ?n 0"
  from ne have n: "0 < ?n" by simp
  have choice: "np_random_choice ?n ?n g = Inr (?idx, g\<lparr>pos := pos g + ?n\<rparr>)"
    using n by (simp add: np_random_choice_def resample_indices_def)
  have bound: "j < ?n" if "j \<in> set ?idx" for j
    using that resample_indices_bound(2) [OF n] by blast
  have ix: "iloc x ?idx = Inr (map (\<lambda>i. x ! i) ?idx)"
    using bound by (simp add: iloc_def list_all_iff)
  have iy: "iloc y ?idx = Inr (map (\<lambda>i. y ! i) ?idx)"
    using bound len by (simp add: iloc_def list_all_iff)
  have z: "zip (map (\<lambda>i. x ! i) ?idx) (map (\<lambda>i. y ! i) ?idx) = map (\<lambda>k. zip x y ! k) ?idx"
    using len bound by (rule zip_map_nth)
  have "?idx \<noteq> []"
    using resample_indices_bound(1) [OF n, of "\<lambda>k. raw g (pos g + k)" 0] n by auto
  then have "zip (map (\<lambda>i. x ! i) ?idx) (map (\<lambda>i. y ! i) ?idx) \<noteq> []"
    unfolding z by simp
  then have "chi2_contingency (crosstab (map (\<lambda>i. x ! i) ?idx) (map (\<lambda>i. y ! i) ?idx))
      = Inr (chi2_of_pairs (zip (map (\<lambda>i. x ! i) ?idx) (map (\<lambda>i. y ! i) ?idx)))"
    by (rule chi2_contingency_crosstab)
  then have chi: "chi2_contingency (crosstab (map (\<lambda>i. x ! i) ?idx) (map (\<lambda>i. y ! i) ?idx))
      = Inr (chi2_of_pairs (map (\<lambda>k. zip x y ! k) ?idx))"
    by (simp only: z)
  show ?thesis
    by (simp only: bootstrap_loop.simps choice ix iy chi sum.case prod.case Let_def loop_v_def)
qed

lemma bootstrap_loop_eq:
  fixes x :: "'a::linorder list" and y :: "'b::linorder list"
  assumes len: "length x = length y" and ne: "x \<noteq> []"
  shows "bootstrap_loop k x y min_dim acc g =
     Inr (acc @ map (\<lambda>i. loop_v x y min_dim (resample_indices (\<lambda>k. raw g (pos g + k)) (length x) i)) [0..<k],
          g\<lparr>pos := pos g + k * length x\<rparr>)"
proof (induction k arbitrary: acc g)
  case 0
  show ?case by simp
next
  case (Suc k)
  let ?n = "length x"
  let ?g1 = "g\<lparr>pos := pos g + ?n\<rparr>"
  let ?f = "\<lambda>i. loop_v x y min_dim (resample_indices (\<lambda>k. raw g (pos g + k)) ?n i)"
  have "bootstrap_loop (Suc k) x y min_dim acc g = bootstrap_loop k x y min_dim (acc @ [?f 0]) ?g1"
    by (rule bootstrap_step [OF len ne])
  also have "\<dots> = Inr ((acc @ [?f 0])
        @ map (\<lambda>i. loop_v x y min_dim (resample_indices (\<lambda>k. raw ?g1 (pos ?g1 + k)) ?n i)) [0..<k],
      ?g1\<lparr>pos := pos ?g1 + k * ?n\<rparr>)"
    by (rule Suc.IH)
  also have "\<dots> = Inr (acc @ map ?f [0..<Suc k], g\<lparr>pos := pos g + Suc k * ?n\<rparr>)"
    by (simp add: resample_indices_shift map_upt_Suc del: upt_Suc)
  finally show ?case .
qed

lemma floor_index:
  assumes "0 \<le> t"
  shows "real (nat \<lfloor>t\<rfloor>) \<le> t" and "t < real (nat \<lfloor>t\<rfloor>) + 1"
  using assms by (simp_all add: of_nat_nat)

lemma floor_index_less:
  assumes "0 \<le> t" "t < real m"
  shows "nat \<lfloor>t\<rfloor> < m"
proof -
  have "real (nat \<lfloor>t\<rfloor>) < real m"
    using floor_index(1) [OF assms(1)] assms(2) by linarith
  then show ?thesis by (simp only: of_nat_less_iff)
qed

lemma floor_index_le:
  assumes "0 \<le> t" "t \<le> real m"
  shows "nat \<lfloor>t\<rfloor> \<le> m"
proof -
  have "real (nat \<lfloor>t\<rfloor>) \<le> real m"
    using floor_index(1) [OF assms(1)] assms(2) by linarith
  then show ?thesis by (simp only: of_nat_le_iff)
qed

lemma length_pred:
  assumes "arr \<noteq> []"
  shows "real (length arr) - 1 = real (length arr - 1)" and "length arr - 1 < length arr"
  using assms by (cases arr; simp)+

lemma interp_top:
  assumes "arr \<noteq> []" "real (length arr) - 1 \<le> t"
  shows "interp arr t = arr ! (length arr - 1)"
  using assms by (simp add: interp_def Let_def)

lemma interp_inner:
  assumes "\<not> real (length arr) - 1 \<le> t"
  shows "interp arr t = arr ! nat \<lfloor>t\<rfloor> + (arr ! (nat \<lfloor>t\<rfloor> + 1) - arr ! nat \<lfloor>t\<rfloor>) * (t - real (nat \<lfloor>t\<rfloor>))"
  using assms by (simp add: interp_def Let_def)

lemma inner_step:
  assumes "sorted arr" "arr \<noteq> []" "0 \<le> t" "\<not> real (length arr) - 1 \<le> t"
  shows "nat \<lfloor>t\<rfloor> + 1 < length arr" and "arr ! nat \<lfloor>t\<rfloor> \<le> arr ! (nat \<lfloor>t\<rfloor> + 1)"
proof -
  from assms(4) have "t < real (length arr - 1)"
    by (simp add: length_pred(1) [OF assms(2)])
  then have "nat \<lfloor>t\<rfloor> < length arr - 1" using assms(3) by (intro floor_index_less)
  then show lt: "nat \<lfloor>t\<rfloor> + 1 < length arr" by simp
  show "arr ! nat \<lfloor>t\<rfloor> \<le> arr ! (nat \<lfloor>t\<rfloor> + 1)"
    using assms(1) lt by (intro sorted_nth_mono) simp_all
qed

lemma interp_lower:
  assumes "sorted arr" "arr \<noteq> []" "0 \<le> t" "t \<le> real (length arr) - 1"
  shows "arr ! nat \<lfloor>t\<rfloor> \<le> interp arr t"
proof (cases "real (length arr) - 1 \<le> t")
  case True
  have "nat \<lfloor>t\<rfloor> \<le> length arr - 1"
    using assms(3,4) by (intro floor_index_le) (simp_all add: length_pred(1) [OF assms(2)])
  then have "arr ! nat \<lfloor>t\<rfloor> \<le> arr ! (length arr - 1)"
    using assms(1) length_pred(2) [OF assms(2)] by (intro sorted_nth_mono)
  then show ?thesis by (simp only: interp_top [OF assms(2) True])
next
  case False
  have "0 \<le> (arr ! (nat \<lfloor>t\<rfloor> + 1) - arr ! nat \<lfloor>t\<rfloor>) * (t - real (nat \<lfloor>t\<rfloor>))"
    using inner_step(2) [OF assms(1,2,3) False] floor_index(1) [OF assms(3)]
    by (intro mult_nonneg_nonneg) simp_all
  then show ?thesis by (simp add: interp_inner [OF False])
qed

lemma interp_upper:
  assumes "sorted arr" "arr \<noteq> []" "0 \<le> t" "t \<le> real (length arr) - 1"
  shows "interp arr t \<le> arr ! min (nat \<lfloor>t\<rfloor> + 1) (length arr - 1)"
proof (cases "real (length arr) - 1 \<le> t")
  case True
  with assms(4) have "t = real (length arr - 1)"
    by (simp add: length_pred(1) [OF assms(2)])
  then have "nat \<lfloor>t\<rfloor> = length arr - 1" by simp
  then show ?thesis by (simp add: interp_top [OF assms(2) True])
next
  case False
  note st = inner_step [OF assms(1,2,3) False]
  have "(arr ! (nat \<lfloor>t\<rfloor> + 1) - arr ! nat \<lfloor>t\<rfloor>) * (t - real (nat \<lfloor>t\<rfloor>))
      \<le> (arr ! (nat \<lfloor>t\<rfloor> + 1) - arr ! nat \<lfloor>t\<rfloor>) * 1"
    using st(2) floor_index(2) [OF assms(3)] by (intro mult_left_mono) simp_all
  moreover have "min (nat \<lfloor>t\<rfloor> + 1) (length arr - 1) = nat \<lfloor>t\<rfloor> + 1"
    using st(1) by simp
  ultimately show ?thesis by (simp add: interp_inner [OF False])
qed

lemma interp_mono:
  assumes "sorted arr" "arr \<noteq> []" "0 \<le> s" "s \<le> t" "t \<le> real (length arr) - 1"
  shows "interp arr s \<le> interp arr t"
proof -
  let ?i = "nat \<lfloor>s\<rfloor>" and ?j = "nat \<lfloor>t\<rfloor>"
  let ?n = "length arr"
  from assms have t0: "0 \<le> t" and s1: "s \<le> real ?n - 1" by simp_all
  have ij: "?i \<le> ?j" using assms(4) by (simp add: floor_mono nat_mono)
  have jn: "?j \<le> ?n - 1"
    using t0 assms(5) by (intro floor_index_le) (simp_all add: length_pred(1) [OF assms(2)])
  have lo: "interp arr s \<le> arr ! min (?i + 1) (?n - 1)"
    using assms(1,2,3) s1 by (rule interp_upper)
  show ?thesis
  proof (cases "?i = ?j")
    case False
    with ij have "min (?i + 1) (?n - 1) \<le> ?j" by simp
    then have "arr ! min (?i + 1) (?n - 1) \<le> arr ! ?j"
      using assms(1) jn length_pred(2) [OF assms(2)] by (intro sorted_nth_mono) simp_all
    moreover have "arr ! ?j \<le> interp arr t"
      using assms(1,2) t0 assms(5) by (rule interp_lower)
    ultimately show ?thesis using lo by linarith
  next
    case True
    show ?thesis
    proof (cases "real ?n - 1 \<le> t")
      case top: True
      have "arr ! min (?i + 1) (?n - 1) \<le> arr ! (?n - 1)"
        using assms(1) length_pred(2) [OF assms(2)] by (intro sorted_nth_mono) simp_all
      then show ?thesis using lo by (simp add: interp_top [OF assms(2) top])
    next
      case False
      then have s: "\<not> real ?n - 1 \<le> s" using assms(4) by simp
      note st = inner_step [OF assms(1,2) t0 False]
      have "(arr ! (?j + 1) - arr ! ?j) * (s - real ?j) \<le> (arr ! (?j + 1) - arr ! ?j) * (t - real ?j)"
        using st(2) assms(4) by (intro mult_left_mono) simp_all
      then show ?thesis by (simp add: interp_inner [OF False] interp_inner [OF s] True)
    qed
  qed
qed

lemma percentile_interp:
  assumes "a \<noteq> []" "0 \<le> q" "q \<le> 100"
  shows "percentile a q = Inr (interp (sort a) ((real (length a) - 1) * (q / 100)))"
  using assms by (simp add: percentile_def interp_def Let_def)

lemma percentile_mono:
  assumes "a \<noteq> []" "0 \<le> q1" "q1 \<le> q2" "q2 \<le> 100"
  shows "\<exists>p1 p2. percentile a q1 = Inr p1 \<and> percentile a q2 = Inr p2 \<and> p1 \<le> p2"
proof -
  let ?m = "real (length a) - 1"
  from assms(1) have m: "0 \<le> ?m" by (cases a) simp_all
  have "interp (sort a) (?m * (q1 / 100)) \<le> interp (sort a) (?m * (q2 / 100))"
  proof (rule interp_mono)
    show "sorted (sort a)" by simp
    show "sort a \<noteq> []" using assms(1) by (cases a) (auto simp: insort_is_Cons dest: arg_cong [where f = length])
    show "0 \<le> ?m * (q1 / 100)" using m assms(2) by simp
    show "?m * (q1 / 100) \<le> ?m * (q2 / 100)" using m assms(3) by (intro mult_left_mono) simp_all
    have "?m * (q2 / 100) \<le> ?m * 1" using m assms(4) by (intro mult_left_mono) simp_all
    then show "?m * (q2 / 100) \<le> real (length (sort a)) - 1" by simp
  qed
  then show ?thesis
    using assms by (simp add: percentile_interp)
qed


lemma card_ge2_nonempty:
  assumes "2 \<le> card (set x)"
  shows "x \<noteq> []"
  using assms by auto

lemma cramers_v_with_ci_degenerate:
  fixes x :: "'a::linorder list" and y :: "'b::linorder list"
  assumes "length x = length y" "card (set x) = 1 \<or> card (set y) = 1"
  shows "cramers_v_with_ci s x y c g = Inr ((0, (0, 0)), g)"
proof -
  from assms have ne: "x \<noteq> []" by auto
  from ne assms(1) have "y \<noteq> []" by (cases y) auto
  with ne have "set x \<noteq> {}" "set y \<noteq> {}" by simp_all
  then have "1 \<le> card (set x)" "1 \<le> card (set y)" by (simp_all add: Suc_le_eq card_gt_0_iff)
  with assms(2) have m: "int (min (card (set x)) (card (set y))) - 1 = 0" by (auto simp: min_def)
  show ?thesis
    using assms(1) m
    by (simp add: cramers_v_with_ci_def chi2_contingency_crosstab [OF zip_nonempty [OF assms(1) ne]]
        shape_crosstab zip_sets Let_def)
qed

lemma cramers_v_with_ci_resamples:
  fixes x :: "'a::linorder list" and y :: "'b::linorder list"
  assumes len: "length x = length y" and cx: "2 \<le> card (set x)" and cy: "2 \<le> card (set y)"
  shows "cramers_v_with_ci s x y c g =
     (case percentile (map (resample_v s x y) [0..<1000]) ((1 - c) / 2 * 100) of
        Inl e \<Rightarrow> Inl e
      | Inr lo \<Rightarrow>
     (case percentile (map (resample_v s x y) [0..<1000]) ((1 - (1 - c) / 2) * 100) of
        Inl e \<Rightarrow> Inl e
      | Inr hi \<Rightarrow>
          Inr ((sqrt (chi2_of_pairs (zip x y)
                  / (real (length x) * (real (min (card (set x)) (card (set y))) - 1))),
                (lo, hi)),
               \<lparr>raw = s, pos = 1000 * length x\<rparr>)))"
proof -
  let ?m = "int (min (card (set x)) (card (set y))) - 1"
  from cx have ne: "x \<noteq> []" by (rule card_ge2_nonempty)
  from cx cy have m: "0 < ?m" by simp
  then have mr: "real_of_int ?m = real (min (card (set x)) (card (set y))) - 1" by simp
  have vs: "loop_v x y ?m (resample_indices (\<lambda>k. s k) (length x) i) = resample_v s x y i" for i
    using m by (simp only: loop_v_def resample_v_def mr if_True)
  have loop: "bootstrap_loop 1000 x y ?m [] (np_random_seed s g) =
      Inr (map (resample_v s x y) [0..<1000], \<lparr>raw = s, pos = 1000 * length x\<rparr>)"
    unfolding bootstrap_loop_eq [OF len ne]
    by (simp add: np_random_seed_def vs del: upt_Suc)
  have chi: "chi2_contingency (crosstab x y) = Inr (chi2_of_pairs (zip x y))"
    using zip_nonempty [OF len ne] by (rule chi2_contingency_crosstab)
  from cx cy have m0: "min (card (set x)) (card (set y)) \<noteq> Suc 0" by (simp add: min_def)
  have tot: "grand_total (crosstab x y) = length x"
    using len by (simp add: total_crosstab)
  have shp: "shape (crosstab x y) = (card (set x), card (set y))"
    using len by (simp add: shape_crosstab zip_sets)
  have "cramers_v_with_ci s x y c g =
     (case bootstrap_loop 1000 x y ?m [] (np_random_seed s g) of
        Inl e \<Rightarrow> Inl e
      | Inr (v_bootstrap, g1) \<Rightarrow>
     (case percentile v_bootstrap ((1 - c) / 2 * 100) of
        Inl e \<Rightarrow> Inl e
      | Inr lo \<Rightarrow>
     (case percentile v_bootstrap ((1 - (1 - c) / 2) * 100) of
        Inl e \<Rightarrow> Inl e
      | Inr hi \<Rightarrow>
          Inr ((sqrt (chi2_of_pairs (zip x y) / (real (length x) * real_of_int ?m)), (lo, hi)), g1))))"
    unfolding cramers_v_with_ci_def Let_def chi tot shp fst_conv snd_conv
    using m0 by simp
  then show ?thesis
    by (simp only: loop mr sum.case prod.case)
qed

section \<open>Claims about the bootstrap interval\<close>

text \<open>
  Claim C10. For equal-length series whose table has a single row or a single column
  (\<open>min_dim = 0\<close>), \<open>cramers_v_with_ci\<close> returns the point estimate 0 with the interval
  \<open>(0, 0)\<close> and leaves the random number generator exactly as it found it: it is neither
  seeded nor asked for a draw.
\<close>

theorem ci_degenerate_table:
  fixes x :: "'a::linorder list" and y :: "'b::linorder list"
  assumes "length x = length y" "card (set x) = 1 \<or> card (set y) = 1"
  shows "cramers_v_with_ci stream x y confidence g = Inr ((0, (0, 0)), g)"
  using assms by (rule cramers_v_with_ci_degenerate)


text \<open>
  Claim C4, amended. When both series have at least two distinct values (\<open>min_dim \<ge> 1\<close>)
  and the confidence \<open>c\<close> lies in \<open>[0, 1]\<close>, the generator is seeded and exactly
  \<open>1000 * N\<close> variates are consumed: each of the 1000 resamples is a vector of \<open>N\<close>
  indices below \<open>N\<close>, the same vector selects from \<open>x\<close> and from \<open>y\<close>, so that the
  statistic of the resample is the statistic of original pairs (\<open>resample_v\<close> is
  Cramer's V of these pairs with the \<open>min_dim\<close> of the whole sample), and the bounds
  returned are the percentiles \<open>100 * (1 - c) / 2\<close> and \<open>100 * (1 - (1 - c) / 2)\<close> of the
  1000 resampled statistics.
\<close>

theorem bootstrap_percentile_interval:
  fixes x :: "'a::linorder list" and y :: "'b::linorder list"
  assumes len: "length x = length y" and two: "2 \<le> card (set x)" "2 \<le> card (set y)"
    and c: "0 \<le> confidence" "confidence \<le> 1"
  shows "\<exists>v lower upper.
           cramers_v_with_ci stream x y confidence g
             = Inr ((v, (lower, upper)), \<lparr>raw = stream, pos = 1000 * length x\<rparr>)
         \<and> percentile (map (resample_v stream x y) [0..<1000]) (100 * ((1 - confidence) / 2)) = Inr lower
         \<and> percentile (map (resample_v stream x y) [0..<1000]) (100 * (1 - (1 - confidence) / 2)) = Inr upper
         \<and> (\<forall>i<1000. length (resample_indices stream (length x) i) = length x
              \<and> (\<forall>j\<in>set (resample_indices stream (length x) i). j < length x)
              \<and> chi2_contingency
                    (crosstab (map (\<lambda>k. x ! k) (resample_indices stream (length x) i))
                              (map (\<lambda>k. y ! k) (resample_indices stream (length x) i)))
                  = Inr (chi2_of_pairs (map (\<lambda>k. zip x y ! k) (resample_indices stream (length x) i)))
              \<and> set (map (\<lambda>k. zip x y ! k) (resample_indices stream (length x) i)) \<subseteq> set (zip x y))"
proof -
  let ?vs = "map (resample_v stream x y) [0..<1000]"
  from two(1) have ne: "x \<noteq> []" by (rule card_ge2_nonempty)
  then have n: "0 < length x" by simp
  have "?vs \<noteq> []" by simp
  moreover have "0 \<le> (1 - confidence) / 2 * 100" using c by simp
  moreover have "(1 - confidence) / 2 * 100 \<le> (1 - (1 - confidence) / 2) * 100"
      using c by (intro mult_right_mono) (simp_all add: field_simps)
  moreover have "(1 - (1 - confidence) / 2) * 100 \<le> 100" using c by simp
  ultimately obtain lo hi where p:
    "percentile ?vs ((1 - confidence) / 2 * 100) = Inr lo"
    "percentile ?vs ((1 - (1 - confidence) / 2) * 100) = Inr hi"
    using percentile_mono by blast
  have idx: "length (resample_indices stream (length x) i) = length x
      \<and> (\<forall>j\<in>set (resample_indices stream (length x) i). j < length x)
      \<and> chi2_contingency
            (crosstab (map (\<lambda>k. x ! k) (resample_indices stream (length x) i))
                      (map (\<lambda>k. y ! k) (resample_indices stream (length x) i)))
          = Inr (chi2_of_pairs (map (\<lambda>k. zip x y ! k) (resample_indices stream (length x) i)))
      \<and> set (map (\<lambda>k. zip x y ! k) (resample_indices stream (length x) i)) \<subseteq> set (zip x y)" for i
  proof -
    note b = resample_indices_bound [OF n, where stream = stream and i = i]
    from b(1) n have "resample_indices stream (length x) i \<noteq> []" by auto
    note chi = resample_chi2 [OF len b(2) this]
    have "zip x y ! k \<in> set (zip x y)" if "k \<in> set (resample_indices stream (length x) i)" for k
    proof -
      from that have "k < length (zip x y)" using b(2) len by simp
      then show ?thesis by (rule nth_mem)
    qed
    then have "set (map (\<lambda>k. zip x y ! k) (resample_indices stream (length x) i)) \<subseteq> set (zip x y)"
      unfolding set_map by blast
    with b chi show ?thesis by blast
  qed
  have "cramers_v_with_ci stream x y confidence g
      = Inr ((sqrt (chi2_of_pairs (zip x y)
                  / (real (length x) * (real (min (card (set x)) (card (set y))) - 1))), (lo, hi)),
             \<lparr>raw = stream, pos = 1000 * length x\<rparr>)"
    by (simp only: cramers_v_with_ci_resamples [OF len two] p sum.case)
  moreover have "percentile ?vs (100 * ((1 - confidence) / 2)) = Inr lo"
    using p(1) by (simp only: mult.commute)
  moreover have "percentile ?vs (100 * (1 - (1 - confidence) / 2)) = Inr hi"
    using p(2) by (simp only: mult.commute)
  ultimately show ?thesis using idx by blast
qed






lemma example_length: "length [0::int, 0, 1, 1] = 4"
  by simp


lemma example_hyps:
  "length [0::int, 0, 1, 1] = length [0::int, 1, 0, 1]"
  "2 \<le> card (set [0::int, 0, 1, 1])"
  "2 \<le> card (set [0::int, 1, 0, 1])"
  unfolding example_cards by simp_all



theorem bootstrap_percentile_interval_witness:
  "\<exists>v lower upper.
     cramers_v_with_ci (\<lambda>i. i) [0::int, 0, 1, 1] [0::int, 1, 0, 1] (9 / 10) \<lparr>raw = (\<lambda>i. 0), pos = 7\<rparr>
       = Inr ((v, (lower, upper)), \<lparr>raw = (\<lambda>i. i), pos = 4000\<rparr>)
     \<and> percentile (map (resample_v (\<lambda>i. i) [0::int, 0, 1, 1] [0::int, 1, 0, 1]) [0..<1000]) 5 = Inr lower
     \<and> percentile (map (resample_v (\<lambda>i. i) [0::int, 0, 1, 1] [0::int, 1, 0, 1]) [0..<1000]) 95 = Inr upper"
proof -
  have c: "(0::real) \<le> 9 / 10" "(9 / 10::real) \<le> 1" by simp_all
  have q: "100 * ((1 - 9 / 10) / 2) = (5::real)" "100 * (1 - (1 - 9 / 10) / 2) = (95::real)"
    by simp_all
  from bootstrap_percentile_interval [OF example_hyps c, where stream = "\<lambda>i. i"
      and g = "\<lparr>raw = (\<lambda>i. 0), pos = 7\<rparr>"]
  show ?thesis
    unfolding q example_length by simp blast
qed

theorem ci_degenerate_table_witness:
  "cramers_v_with_ci (\<lambda>i. i) [7::int, 7, 7] [0::int, 1, 2] (95 / 100) \<lparr>raw = (\<lambda>i. i), pos = 5\<rparr>
     = Inr ((0, (0, 0)), \<lparr>raw = (\<lambda>i. i), pos = 5\<rparr>)"
  using ci_degenerate_table [of "[7::int, 7, 7]" "[0::int, 1, 2]"] by simp

text \<open>
  Claim C4 as stated fails for a table with a single column: no resample is drawn, the
  generator keeps its unseeded stream at position 0, and the bounds are \<open>(0, 0)\<close>.
\<close>

theorem resampling_skipped:
  "cramers_v_with_ci (\<lambda>i. i) [0::int, 1] [5::int, 5] (95 / 100) \<lparr>raw = (\<lambda>i. 0), pos = 0\<rparr>
     = Inr ((0, (0, 0)), \<lparr>raw = (\<lambda>i. 0), pos = 0\<rparr>)"
  by (simp add: cramers_v_with_ci_degenerate)

section \<open>Facts about the matrix builder\<close>


lemma sequence_results_total:
  assumes "\<And>r. r \<in> set rs \<Longrightarrow> \<exists>v. r = Inr v"
  shows "\<exists>vs. sequence_results rs = Inr vs"
  using assms
proof (induction rs)
  case Nil
  show ?case by simp
next
  case (Cons r rs)
  then obtain v where "r = Inr v" by auto
  moreover from Cons obtain vs where "sequence_results rs = Inr vs" by auto
  ultimately show ?case by simp
qed



lemma effect_size_matrix_returns:
  assumes "set variables \<subseteq> dom df"
    and "\<And>a b. a \<in> ran df \<Longrightarrow> b \<in> ran df \<Longrightarrow> \<exists>v. effect_func a b = Inr v"
  shows "\<exists>M. build_effect_size_matrix df variables effect_func = Inr M"
proof -
  let ?n = "length variables"
  have cell: "\<exists>v. effect_size_cell df variables effect_func i j = Inr v" if "i < ?n" "j < ?n" for i j
  proof -
    from that assms(1) obtain xi xj where x: "df (variables ! i) = Some xi" "df (variables ! j) = Some xj"
      by (metis domD nth_mem subsetD)
    then have "xi \<in> ran df" "xj \<in> ran df" by (auto simp: ran_def)
    from assms(2) [OF this] show ?thesis
      by (auto simp: effect_size_cell_def getitem_def x)
  qed
  have row: "\<exists>vs. sequence_results (map (\<lambda>j. effect_size_cell df variables effect_func i j) [0..<?n]) = Inr vs"
    if "i < ?n" for i
    using cell [OF that] by (intro sequence_results_total) auto
  have "\<exists>m. sequence_results (map (\<lambda>i. sequence_results
      (map (\<lambda>j. effect_size_cell df variables effect_func i j) [0..<?n])) [0..<?n]) = Inr m"
    using row by (intro sequence_results_total) auto
  then show ?thesis by (auto simp: build_effect_size_matrix_def Let_def)
qed

section \<open>Claim about the effect size matrix\<close>


lemma upt_2: "[0..<2] = [0, 1]"
  by (simp add: upt_rec)

lemma upt_3: "[0..<3] = [0, 1, 2]"
  by (simp add: upt_rec)



section \<open>Facts about the chord layout\<close>

lemma in_chords_iff:
  "c \<in> set (chords t threshold) \<longleftrightarrow>
     (\<exists>i<length (index t). \<exists>j<length (columns t).
        threshold < data_norm t ! i ! j
        \<and> c = \<lparr>source = i, target = j, radius = 8 / 10 + 1 / 10 * (data_norm t ! i ! j),
               opacity = 3 / 10 + 4 / 10 * (data_norm t ! i ! j),
               linewidth = 2 * (data_norm t ! i ! j)\<rparr>)"
  by (auto simp: chords_def Let_def split: if_splits)

lemma in_correlation_lines_iff:
  "l \<in> set (correlation_lines corr) \<longleftrightarrow>
     (\<exists>i j. i < j \<and> j < length (columns corr) \<and> 15 / 100 < \<bar>cells corr ! i ! j\<bar>
        \<and> l = \<lparr>node_i = i, node_j = j,
               line_width = 1 / 2 + (\<bar>cells corr ! i ! j\<bar> - 15 / 100) * 8,
               is_negative = (cells corr ! i ! j < 0),
               line_alpha = min (3 / 10 + \<bar>cells corr ! i ! j\<bar> * (6 / 10)) (9 / 10)\<rparr>)"
  by (auto simp: correlation_lines_def Let_def split: if_splits)

lemma chord_drawn_iff:
  assumes "i < length (index t)" "j < length (columns t)"
  shows "(\<exists>c\<in>set (chords t u). source c = i \<and> target c = j) \<longleftrightarrow> u < data_norm t ! i ! j"
proof
  assume "\<exists>c\<in>set (chords t u). source c = i \<and> target c = j"
  then show "u < data_norm t ! i ! j" by (auto simp: in_chords_iff)
next
  assume u: "u < data_norm t ! i ! j"
  let ?c = "\<lparr>source = i, target = j, radius = 8 / 10 + 1 / 10 * (data_norm t ! i ! j),
             opacity = 3 / 10 + 4 / 10 * (data_norm t ! i ! j),
             linewidth = 2 * (data_norm t ! i ! j)\<rparr>"
  have "?c \<in> set (chords t u)"
    unfolding in_chords_iff using assms u by blast
  then show "\<exists>c\<in>set (chords t u). source c = i \<and> target c = j"
    by (intro bexI [of _ ?c]) simp_all
qed

lemma line_drawn_iff:
  assumes "a < b" "b < length (columns corr)"
  shows "(\<exists>l\<in>set (correlation_lines corr). node_i l = a \<and> node_j l = b)
           \<longleftrightarrow> 15 / 100 < \<bar>cells corr ! a ! b\<bar>"
proof
  assume "\<exists>l\<in>set (correlation_lines corr). node_i l = a \<and> node_j l = b"
  then show "15 / 100 < \<bar>cells corr ! a ! b\<bar>" by (auto simp: in_correlation_lines_iff)
next
  assume u: "15 / 100 < \<bar>cells corr ! a ! b\<bar>"
  let ?l = "\<lparr>node_i = a, node_j = b,
             line_width = 1 / 2 + (\<bar>cells corr ! a ! b\<bar> - 15 / 100) * 8,
             is_negative = (cells corr ! a ! b < 0),
             line_alpha = min (3 / 10 + \<bar>cells corr ! a ! b\<bar> * (6 / 10)) (9 / 10)\<rparr>"
  have "?l \<in> set (correlation_lines corr)"
    unfolding in_correlation_lines_iff using assms u by blast
  then show "\<exists>l\<in>set (correlation_lines corr). node_i l = a \<and> node_j l = b"
    by (intro bexI [of _ ?l]) simp_all
qed

lemma lines_upper_triangle:
  "l \<in> set (correlation_lines corr) \<Longrightarrow> node_i l < node_j l"
  by (auto simp: in_correlation_lines_iff)

lemma data_norm_cell:
  assumes "i < length (cells t)" "j < length (cells t ! i)" "frame_max t = Some m"
  shows "data_norm t ! i ! j = (if 0 < m then cells t ! i ! j / m else cells t ! i ! j)"
  using assms by (simp add: data_norm_def)

lemma normalised_below:
  fixes v m threshold :: real
  assumes "\<bar>v\<bar> < threshold" "m \<le> 0 \<or> 1 \<le> m"
  shows "\<not> threshold < (if 0 < m then v / m else v)"
proof (cases "0 < m")
  case True
  with assms(2) have m: "1 \<le> m" by simp
  have "v / m \<le> \<bar>v\<bar> / m" using True by (simp add: divide_right_mono)
  also have "\<dots> \<le> \<bar>v\<bar> / 1" using m by (intro divide_left_mono) simp_all
  finally show ?thesis using assms(1) True by simp
next
  case False
  then show ?thesis using assms(1) by simp
qed

lemma node_sizes_row:
  assumes "i < length (index t)" "length (cells t ! i) = length (columns t)"
  shows "node_sizes t ! i = (\<Sum>k<length (columns t). cells t ! i ! k)"
proof -
  have "node_sizes t ! i = sum_list (cells t ! i)"
    using assms(1) by (simp add: node_sizes_def nth_append)
  also have "\<dots> = (\<Sum>k<length (cells t ! i). cells t ! i ! k)"
    by (simp add: sum_list_sum_nth atLeast0LessThan)
  finally show ?thesis by (simp add: assms(2))
qed

lemma node_sizes_col:
  assumes "j < length (columns t)" "length (cells t) = length (index t)"
  shows "node_sizes t ! (length (index t) + j) = (\<Sum>k<length (index t). cells t ! k ! j)"
proof -
  have "node_sizes t ! (length (index t) + j) = sum_list (map (\<lambda>row. row ! j) (cells t))"
    using assms(1) by (simp add: node_sizes_def)
  also have "\<dots> = (\<Sum>k<length (cells t). cells t ! k ! j)"
    by (simp add: sum_list_sum_nth atLeast0LessThan)
  finally show ?thesis by (simp add: assms(2))
qed

lemma example_lines:
  "map (\<lambda>l. (node_i l, node_j l))
     (correlation_lines
        \<lparr>index = [''P'', ''Q'', ''R''], columns = [''P'', ''Q'', ''R''],
         cells = [[1, 1 / 20, 1 / 2], [1 / 20, 1, 1 / 5], [1 / 2, 1 / 5, 1]]\<rparr>)
   = [(0, 2), (1, 2)]"
  by (simp add: correlation_lines_def upt_3 upt_rec [of 1] upt_rec [of 2] upt_rec [of 3])

lemma example_chords:
  "map (\<lambda>c. (source c, target c))
     (chords
        \<lparr>index = [''P'', ''Q'', ''R''], columns = [''P'', ''Q'', ''R''],
         cells = [[1, 1 / 20, 1 / 2], [1 / 20, 1, 1 / 5], [1 / 2, 1 / 5, 1]]\<rparr> (1 / 10))
   = [(0, 0), (0, 2), (1, 1), (1, 2), (2, 0), (2, 1), (2, 2)]"
  by (simp add: chords_def data_norm_def frame_max_def upt_3)

section \<open>Claims about the chord layout\<close>

text \<open>
  Claim C7, amended. In \<open>create_matplotlib_chord\<close> a cell is compared with the threshold
  after division by the largest cell (when that is positive): for every threshold, the
  cell in row \<open>i\<close> and column \<open>j\<close> produces a chord exactly when this normalised value
  exceeds the threshold. Hence a cell whose absolute value is below the threshold produces
  no chord when the largest cell is at least 1 or not positive. The cell is a summand of
  the node sizes of its row and of its column, in which the threshold plays no part. With
  threshold 0.1 and the matrix of the scenario the chords run from a row node to a column
  node and are (P, P), (P, R), (Q, Q), (Q, R), (R, P), (R, Q), (R, R): the chord (P, Q) is
  excluded, (P, R) and (Q, R) are drawn. In the correlation network of
  generate_fixed_visualizations.py, whose threshold is the constant 0.15, a pair \<open>a < b\<close>
  produces a line exactly when its absolute correlation exceeds 0.15, every line joins a
  pair \<open>i < j\<close>, and on the matrix of the scenario the lines are exactly (P, R) and (Q, R).
\<close>

theorem threshold_excludes_chords:
  assumes "length (cells t) = length (index t)"
    and "\<forall>row\<in>set (cells t). length row = length (columns t)"
    and "i < length (index t)" "j < length (columns t)"
    and "frame_max t = Some m"
    and "a < b" "b < length (columns corr)"
  shows "(\<forall>u. (\<exists>c\<in>set (chords t u). source c = i \<and> target c = j)
                \<longleftrightarrow> u < (if 0 < m then cells t ! i ! j / m else cells t ! i ! j))
       \<and> (\<forall>u. (m \<le> 0 \<or> 1 \<le> m) \<and> \<bar>cells t ! i ! j\<bar> < u
                \<longrightarrow> (\<forall>c\<in>set (chords t u). \<not> (source c = i \<and> target c = j)))
       \<and> node_sizes t ! i = (\<Sum>k<length (columns t). cells t ! i ! k)
       \<and> node_sizes t ! (length (index t) + j) = (\<Sum>k<length (index t). cells t ! k ! j)
       \<and> map (\<lambda>c. (source c, target c))
           (chords
              \<lparr>index = [''P'', ''Q'', ''R''], columns = [''P'', ''Q'', ''R''],
               cells = [[1, 1 / 20, 1 / 2], [1 / 20, 1, 1 / 5], [1 / 2, 1 / 5, 1]]\<rparr> (1 / 10))
         = [(0, 0), (0, 2), (1, 1), (1, 2), (2, 0), (2, 1), (2, 2)]
       \<and> ((\<exists>l\<in>set (correlation_lines corr). node_i l = a \<and> node_j l = b)
                \<longleftrightarrow> 15 / 100 < \<bar>cells corr ! a ! b\<bar>)
       \<and> (\<forall>l\<in>set (correlation_lines corr). node_i l < node_j l)
       \<and> map (\<lambda>l. (node_i l, node_j l))
           (correlation_lines
              \<lparr>index = [''P'', ''Q'', ''R''], columns = [''P'', ''Q'', ''R''],
               cells = [[1, 1 / 20, 1 / 2], [1 / 20, 1, 1 / 5], [1 / 2, 1 / 5, 1]]\<rparr>)
         = [(0, 2), (1, 2)]"
proof -
  from assms(1,3) have i: "i < length (cells t)" by simp
  then have "cells t ! i \<in> set (cells t)" by (rule nth_mem)
  with assms(2) have len: "length (cells t ! i) = length (columns t)" by blast
  with assms(4) have j: "j < length (cells t ! i)" by simp
  note dn = data_norm_cell [OF i j assms(5)]
  have 1: "\<forall>u. (\<exists>c\<in>set (chords t u). source c = i \<and> target c = j)
                \<longleftrightarrow> u < (if 0 < m then cells t ! i ! j / m else cells t ! i ! j)"
    using chord_drawn_iff [OF assms(3,4)] by (simp only: dn) blast
  have 2: "\<forall>u. (m \<le> 0 \<or> 1 \<le> m) \<and> \<bar>cells t ! i ! j\<bar> < u
                \<longrightarrow> (\<forall>c\<in>set (chords t u). \<not> (source c = i \<and> target c = j))"
  proof (intro allI impI)
    fix u
    assume "(m \<le> 0 \<or> 1 \<le> m) \<and> \<bar>cells t ! i ! j\<bar> < u"
    then have "\<not> u < (if 0 < m then cells t ! i ! j / m else cells t ! i ! j)"
      by (intro normalised_below) simp_all
    with 1 show "\<forall>c\<in>set (chords t u). \<not> (source c = i \<and> target c = j)"
      by blast
  qed
  have 3: "(\<exists>l\<in>set (correlation_lines corr). node_i l = a \<and> node_j l = b)
                \<longleftrightarrow> 15 / 100 < \<bar>cells corr ! a ! b\<bar>"
    using assms(6,7) by (rule line_drawn_iff)
  have 4: "\<forall>l\<in>set (correlation_lines corr). node_i l < node_j l"
    using lines_upper_triangle by blast
  from 1 2 3 4 node_sizes_row [OF assms(3) len] node_sizes_col [OF assms(4,1)] example_lines
    example_chords
  show ?thesis by (intro conjI)
qed

text \<open>
  Claim C7 as stated fails in \<open>create_matplotlib_chord\<close>: with the cells 0.5 and 0.05 and
  the threshold 0.08 the second cell is below the threshold in absolute value, yet its
  normalised value 0.1 exceeds the threshold and the chord is drawn. On the scenario of
  the claim the function draws seven chords, not the two that the claim lists.
\<close>

theorem relative_threshold_draws_chord:
  "map (\<lambda>c. (source c, target c))
     (chords \<lparr>index = [''P''], columns = [''Q'', ''R''], cells = [[1 / 2, 1 / 20]]\<rparr> (8 / 100))
     = [(0, 0), (0, 1)]
   \<and> \<bar>cells \<lparr>index = [''P''], columns = [''Q'', ''R''], cells = [[1 / 2, 1 / 20 :: real]]\<rparr> ! 0 ! 1\<bar>
       < 8 / 100
   \<and> map (\<lambda>c. (source c, target c))
       (chords
          \<lparr>index = [''P'', ''Q'', ''R''], columns = [''P'', ''Q'', ''R''],
           cells = [[1, 1 / 20, 1 / 2], [1 / 20, 1, 1 / 5], [1 / 2, 1 / 5, 1]]\<rparr> (1 / 10))
     = [(0, 0), (0, 2), (1, 1), (1, 2), (2, 0), (2, 1), (2, 2)]"
  by (simp add: chords_def data_norm_def frame_max_def upt_2 upt_3 upt_rec [of 0 1])

theorem threshold_excludes_chords_witness:
  "(0, 1) \<notin> (\<lambda>c. (source c, target c)) `
       set (chords \<lparr>index = [''P'', ''Q'', ''R''], columns = [''P'', ''Q'', ''R''],
                    cells = [[1, 1 / 20, 1 / 2], [1 / 20, 1, 1 / 5], [1 / 2, 1 / 5, 1]]\<rparr> (1 / 10))
   \<and> node_sizes \<lparr>index = [''P'', ''Q'', ''R''], columns = [''P'', ''Q'', ''R''],
                    cells = [[1, 1 / 20, 1 / 2], [1 / 20, 1, 1 / 5], [1 / 2, 1 / 5, 1]]\<rparr> ! 0 = 31 / 20
   \<and> (0, 1) \<notin> (\<lambda>l. (node_i l, node_j l)) `
       set (correlation_lines \<lparr>index = [''P'', ''Q'', ''R''], columns = [''P'', ''Q'', ''R''],
                    cells = [[1, 1 / 20, 1 / 2], [1 / 20, 1, 1 / 5], [1 / 2, 1 / 5, 1]]\<rparr>)
   \<and> (\<exists>c\<in>set (chords \<lparr>index = [''P''], columns = [''Q'', ''R''], cells = [[1 / 2, 1 / 20]]\<rparr>
                    (8 / 100)). source c = 0 \<and> target c = 1)"
proof -
  let ?t = "\<lparr>index = [''P'', ''Q'', ''R''], columns = [''P'', ''Q'', ''R''],
             cells = [[1, 1 / 20, 1 / 2], [1 / 20, 1, 1 / 5], [1 / 2, 1 / 5, 1 :: real]]\<rparr>"
  let ?s = "\<lparr>index = [''P''], columns = [''Q'', ''R''], cells = [[1 / 2, 1 / 20 :: real]]\<rparr>"
  have h1: "length (cells ?t) = length (index ?t)" by simp
  have h2: "\<forall>row\<in>set (cells ?t). length row = length (columns ?t)" by simp
  have h3: "0 < length (index ?t)" by simp
  have h4: "1 < length (columns ?t)" by simp
  have h5: "frame_max ?t = Some 1" by (simp add: frame_max_def)
  have h6: "(0::nat) < 1" by simp
  from threshold_excludes_chords [OF h1 h2 h3 h4 h5 h6 h4]
  have a: "\<forall>u. ((1::real) \<le> 0 \<or> (1::real) \<le> 1) \<and> \<bar>cells ?t ! 0 ! 1\<bar> < u
              \<longrightarrow> (\<forall>c\<in>set (chords ?t u). \<not> (source c = 0 \<and> target c = 1))"
    and n: "node_sizes ?t ! 0 = (\<Sum>k<length (columns ?t). cells ?t ! 0 ! k)"
    and b: "(\<exists>l\<in>set (correlation_lines ?t). node_i l = 0 \<and> node_j l = 1)
           \<longleftrightarrow> 15 / 100 < \<bar>cells ?t ! 0 ! 1\<bar>"
    by blast+
  have "((1::real) \<le> 0 \<or> (1::real) \<le> 1) \<and> \<bar>cells ?t ! 0 ! 1\<bar> < 1 / 10" by simp
  with a have c: "\<forall>c\<in>set (chords ?t (1 / 10)). \<not> (source c = 0 \<and> target c = 1)"
    by blast
  have "\<not> 15 / 100 < \<bar>cells ?t ! 0 ! 1\<bar>" by simp
  with b have l: "\<not> (\<exists>l\<in>set (correlation_lines ?t). node_i l = 0 \<and> node_j l = 1)"
    by blast
  have g1: "length (cells ?s) = length (index ?s)" by simp
  have g2: "\<forall>row\<in>set (cells ?s). length row = length (columns ?s)" by simp
  have g3: "0 < length (index ?s)" by simp
  have g4: "1 < length (columns ?s)" by simp
  have g5: "frame_max ?s = Some (1 / 2)" by (simp add: frame_max_def)
  from threshold_excludes_chords [OF g1 g2 g3 g4 g5 h6 h4]
  have e: "\<forall>u. (\<exists>c\<in>set (chords ?s u). source c = 0 \<and> target c = 1)
              \<longleftrightarrow> u < (if (0::real) < 1 / 2 then cells ?s ! 0 ! 1 / (1 / 2) else cells ?s ! 0 ! 1)"
    by blast
  have "8 / 100 < (if (0::real) < 1 / 2 then cells ?s ! 0 ! 1 / (1 / 2) else cells ?s ! 0 ! 1)"
    by simp
  with e have d: "\<exists>c\<in>set (chords ?s (8 / 100)). source c = 0 \<and> target c = 1"
    by blast
  from c l d n show ?thesis
    by (auto simp: lessThan_Suc numeral_3_eq_3)
qed

lemma Max_in_list:
  assumes "xs \<noteq> []"
  shows "\<exists>i<length xs. xs ! i = Max (set xs)"
proof -
  from assms have "Max (set xs) \<in> set xs" by (intro Max_in) simp_all
  then show ?thesis by (auto simp: in_set_conv_nth)
qed

text \<open>
  Claim C8, amended. For a table with at least one node whose largest marginal sum is not
  zero, each node size is the node's marginal sum divided by the largest marginal sum and
  multiplied by 0.3, so that a node with the largest marginal has size exactly 0.3, and
  such a node exists.
\<close>

theorem node_sizes_scaled:
  assumes "node_sizes t \<noteq> []" "Max (set (node_sizes t)) \<noteq> 0"
  shows "\<exists>ns. node_sizes_norm t = Inr ns \<and> length ns = length (node_sizes t)
           \<and> (\<forall>i<length ns. ns ! i = node_sizes t ! i / Max (set (node_sizes t)) * (3 / 10))
           \<and> (\<forall>i<length ns. node_sizes t ! i = Max (set (node_sizes t)) \<longrightarrow> ns ! i = 3 / 10)
           \<and> (\<exists>i<length ns. node_sizes t ! i = Max (set (node_sizes t)))"
proof -
  let ?m = "Max (set (node_sizes t))"
  let ?ns = "map (\<lambda>s. s / ?m * (3 / 10)) (node_sizes t)"
  have 1: "node_sizes_norm t = Inr ?ns"
    using assms by (simp add: node_sizes_norm_def Let_def)
  have 2: "length ?ns = length (node_sizes t)" by simp
  have 3: "\<forall>i<length ?ns. ?ns ! i = node_sizes t ! i / ?m * (3 / 10)" by simp
  have 4: "\<forall>i<length ?ns. node_sizes t ! i = ?m \<longrightarrow> ?ns ! i = 3 / 10"
    using assms(2) by simp
  have 5: "\<exists>i<length ?ns. node_sizes t ! i = ?m"
    using Max_in_list [OF assms(1)] by simp
  from 1 2 3 4 5 show ?thesis by (intro exI [where x = ?ns] conjI)
qed

lemma single_cell_sizes:
  "node_sizes \<lparr>index = [''A''], columns = [''X''], cells = [[1]]\<rparr> = [1, 1]"
  by (simp add: node_sizes_def upt_2)

text \<open>
  Claim C8 as stated fails: for the table with the single cell 1 both nodes carry the
  largest marginal and their size is 0.3, not 1.
\<close>

theorem largest_node_is_three_tenths:
  "node_sizes_norm \<lparr>index = [''A''], columns = [''X''], cells = [[1]]\<rparr> = Inr [3 / 10, 3 / 10]
   \<and> (3 / 10 :: real) \<noteq> 1"
  by (simp add: node_sizes_norm_def single_cell_sizes)

lemma two_rows_sizes:
  "node_sizes \<lparr>index = [''A'', ''B''], columns = [''X''], cells = [[40], [10]]\<rparr> = [40, 10, 50]"
  by (simp add: node_sizes_def upt_3)

theorem node_sizes_scaled_witness:
  "\<exists>ns. node_sizes_norm \<lparr>index = [''A'', ''B''], columns = [''X''], cells = [[40], [10]]\<rparr> = Inr ns
        \<and> length ns = 3 \<and> ns ! 2 = 3 / 10"
proof -
  let ?t = "\<lparr>index = [''A'', ''B''], columns = [''X''], cells = [[40], [10 :: real]]\<rparr>"
  have h1: "node_sizes ?t \<noteq> []" by (simp add: two_rows_sizes)
  have mx: "Max (set (node_sizes ?t)) = 50" by (simp add: two_rows_sizes)
  then have h2: "Max (set (node_sizes ?t)) \<noteq> 0" by simp
  from node_sizes_scaled [OF h1 h2] obtain xs where
    xs: "node_sizes_norm ?t = Inr xs" "length xs = length (node_sizes ?t)"
      "\<forall>i<length xs. node_sizes ?t ! i = Max (set (node_sizes ?t)) \<longrightarrow> xs ! i = 3 / 10"
    by blast
  from xs(2) have l: "length xs = 3" by (simp add: two_rows_sizes)
  have "node_sizes ?t ! 2 = Max (set (node_sizes ?t))" unfolding mx by (simp add: two_rows_sizes)
  with xs(3) l have "xs ! 2 = 3 / 10" by simp
  with xs(1) l show ?thesis by blast
qed

lemma arctan2_third_quadrant: "arctan2 (- 1) (- 1) = - (3 * pi / 4)"
  by (simp add: arctan2_def arctan_one)

text \<open>
  Claim C9 at two labels the code places. In \<open>create_matplotlib_chord\<close> with three
  nodes the second label stands at 120 degrees and is rotated by 120, not by 300; in
  \<open>improve_chord_labels\<close> a label at \<open>(-1, -1)\<close>, that is at 225 degrees, is rotated by
  -135 degrees, which is 225 and not 45 degrees.
\<close>

theorem label_rotation_misses_lower_half:
  "label_rotation (angles 3 1) = 120
   \<and> text_rotation (improve_label \<lparr>text_position = (- 1, - 1), text_rotation = 0\<rparr>) = - 135"
proof -
  have a: "angles 3 1 = 2 * pi / 3" by (simp add: angles_def)
  have "\<not> pi < 2 * pi / 3" using pi_gt_zero by simp
  then have 1: "label_rotation (angles 3 1) = 120"
    unfolding a label_rotation_def degrees_def Let_def by simp
  have deg: "arctan2 (- 1) (- 1) * 180 / pi = - 135"
    by (simp add: arctan2_third_quadrant)
  have 2: "text_rotation (improve_label \<lparr>text_position = (- 1, - 1), text_rotation = 0\<rparr>) = - 135"
    by (simp add: improve_label_def Let_def deg)
  from 1 2 show ?thesis by simp
qed

end
